theory Spec2Isabelle
  imports Complex_Main
begin

unbundle bit_operations_syntax

section \<open>JavaScript numbers\<close>

text \<open>
  The library computes with JavaScript numbers. Every number the modelled functions
  hold is an integer far below \<open>2 ^ 53\<close> in magnitude, where \<open>+\<close>, \<open>-\<close> and \<open>*\<close>
  of doubles are exact, so a number is an \<open>int\<close>. A value that is not a number
  (\<open>undefined\<close>, read from a hole or past the end of an array, or \<open>NaN\<close>, which
  arithmetic makes of it) is \<open>None\<close>: a value is an \<open>int option\<close>.

  Arithmetic on a non-number gives a non-number. The bitwise operators first convert
  their operands with ToInt32, which maps a non-number to 0 and an integer to its
  residue in \<open>[-2^31, 2^31)\<close>; their result is always a number.
\<close>

definition toInt32 :: "int option \<Rightarrow> int" where
  "toInt32 x = (case x of None \<Rightarrow> 0 | Some n \<Rightarrow> signed_take_bit 31 n)"

definition js_and :: "int option \<Rightarrow> int option \<Rightarrow> int option" where
  "js_and x y = Some (toInt32 x AND toInt32 y)"

definition js_or :: "int option \<Rightarrow> int option \<Rightarrow> int option" where
  "js_or x y = Some (toInt32 x OR toInt32 y)"

definition js_xor :: "int option \<Rightarrow> int option \<Rightarrow> int option" where
  "js_xor x y = Some (toInt32 x XOR toInt32 y)"

text \<open>\<open>x << k\<close> and \<open>x >> k\<close> for a shift count \<open>k < 32\<close>.\<close>

definition js_shl :: "int option \<Rightarrow> nat \<Rightarrow> int option" where
  "js_shl x k = Some (signed_take_bit 31 (push_bit k (toInt32 x)))"

definition js_shr :: "int option \<Rightarrow> nat \<Rightarrow> int option" where
  "js_shr x k = Some (drop_bit k (toInt32 x))"

fun js_add :: "int option \<Rightarrow> int option \<Rightarrow> int option" where
  "js_add (Some a) (Some b) = Some (a + b)"
| "js_add _ _ = None"

fun js_sub :: "int option \<Rightarrow> int option \<Rightarrow> int option" where
  "js_sub (Some a) (Some b) = Some (a - b)"
| "js_sub _ _ = None"

fun js_mul :: "int option \<Rightarrow> int option \<Rightarrow> int option" where
  "js_mul (Some a) (Some b) = Some (a * b)"
| "js_mul _ _ = None"

fun js_neg :: "int option \<Rightarrow> int option" where
  "js_neg (Some a) = Some (- a)"
| "js_neg None = None"

text \<open>\<open>n % m\<close> for a positive \<open>m\<close>: the remainder has the sign of \<open>n\<close>.\<close>

definition js_rem :: "int \<Rightarrow> int \<Rightarrow> int" where
  "js_rem n m = (if n < 0 then - ((- n) mod m) else n mod m)"

section \<open>Arrays\<close>

text \<open>
  A \<open>number[]\<close> is a list of values; a hole left by \<open>new Array(n)\<close> is \<open>None\<close>.
  Reading past the end gives \<open>undefined\<close>; writing past the end extends the array
  with holes.
\<close>

type_synonym jsarray = "int option list"

definition jget :: "jsarray \<Rightarrow> nat \<Rightarrow> int option" where
  "jget r i = (if i < length r then r ! i else None)"

definition jset :: "jsarray \<Rightarrow> nat \<Rightarrow> int option \<Rightarrow> jsarray" where
  "jset r i v = (if i < length r then r[i := v]
                 else r @ replicate (i - length r) None @ [v])"

section \<open>utilities.ts\<close>

function byte_loop :: "int \<Rightarrow> int" where
  "byte_loop n = (if n < 0 then byte_loop (n + 256) else n)"
  by pat_completeness auto
termination
  by (relation "measure (\<lambda>n. nat (- n))") auto

definition byte :: "int \<Rightarrow> int" where
  "byte n = byte_loop (js_rem n 256)"

function intToByte :: "int \<Rightarrow> int" where
  "intToByte n = (if n > 255 then intToByte (n - 256) else n)"
  by pat_completeness auto
termination
  by (relation "measure (\<lambda>n. nat n)") auto

function uint16_loop :: "int \<Rightarrow> int" where
  "uint16_loop n = (if n < 0 then uint16_loop (n + 65536) else n)"
  by pat_completeness auto
termination
  by (relation "measure (\<lambda>n. nat (- n))") auto

definition uint16 :: "int \<Rightarrow> int" where
  "uint16 n = uint16_loop (js_rem n 65536)"

definition int16 :: "int \<Rightarrow> int" where
  "int16 n = (if n < - 32768 then 32767 + uint16 (n + 32769)
              else if n > 32767 then - 32768 + uint16 (n - 32768)
              else n)"

function uint32_loop :: "int \<Rightarrow> int" where
  "uint32_loop n = (if n < 4294967296 then uint32_loop (n + 4294967296) else n)"
  by pat_completeness auto
termination
  by (relation "measure (\<lambda>n. nat (4294967296 - n))") auto

definition uint32 :: "int \<Rightarrow> int" where
  "uint32 n = uint32_loop (js_rem n 4294967296)"

definition int32 :: "int \<Rightarrow> int" where
  "int32 n = (if n < - 2147483648 then 2147483647 + uint32 (n + 2147483649)
              else if n > 2147483647 then - 2147483648 + uint32 (n - 2147483648)
              else n)"

text \<open>
  \<open>constantTimeCompare\<close> takes two byte arrays (every slot a number). The loop leaves
  at the first index where they differ.
\<close>

function constantTimeCompare_loop :: "int list \<Rightarrow> int list \<Rightarrow> nat \<Rightarrow> int" where
  "constantTimeCompare_loop a b i =
     (if i < length a
      then (if a ! i \<noteq> b ! i then 1 else constantTimeCompare_loop a b (i + 1))
      else 0)"
  by pat_completeness auto
termination
  by (relation "measure (\<lambda>(a, b, i). length a - i)") auto

definition constantTimeCompare :: "int list \<Rightarrow> int list \<Rightarrow> int" where
  "constantTimeCompare a b =
     (if length a \<noteq> length b then 1 else constantTimeCompare_loop a b 0)"

section \<open>Parameters (kyber.service.ts)\<close>

definition paramsN :: nat where
  "paramsN = 256"

definition paramsQ :: int where
  "paramsQ = 3329"

definition paramsQinv :: int where
  "paramsQinv = 62209"

definition paramsSymBytes :: nat where
  "paramsSymBytes = 32"

definition paramsPolyBytes :: nat where
  "paramsPolyBytes = 384"

section \<open>Serialisation of polynomials (poly.ts)\<close>

text \<open>
  A counted loop \<open>for (let i = 0; i < n; i++)\<close> whose body does not assign \<open>i\<close> is
  the \<open>fold\<close> of its body over \<open>[0..<n]\<close>. The methods work in place: the model
  returns the array as the method leaves it.
\<close>

definition polyConditionalSubQ_step :: "nat \<Rightarrow> jsarray \<Rightarrow> jsarray" where
  "polyConditionalSubQ_step i r =
     (let r1 = jset r i (js_sub (jget r i) (Some paramsQ))
      in jset r1 i (js_add (jget r1 i) (js_and (js_shr (jget r1 i) 31) (Some paramsQ))))"

definition polyConditionalSubQ :: "jsarray \<Rightarrow> jsarray" where
  "polyConditionalSubQ r = fold polyConditionalSubQ_step [0..<paramsN] r"

definition polyToBytes_step :: "jsarray \<Rightarrow> nat \<Rightarrow> jsarray \<Rightarrow> jsarray" where
  "polyToBytes_step a2 i r =
     (let t0 = map_option uint16 (jget a2 (2 * i));
          t1 = map_option uint16 (jget a2 (2 * i + 1));
          r1 = jset r (3 * i) (map_option byte t0);
          r2 = jset r1 (3 * i + 1)
                 (js_or (map_option byte (js_shr t0 8)) (map_option byte (js_shl t1 4)))
      in jset r2 (3 * i + 2) (map_option byte (js_shr t1 4)))"

definition polyToBytes :: "jsarray \<Rightarrow> jsarray" where
  "polyToBytes a =
     (let r = replicate paramsPolyBytes None;
          a2 = polyConditionalSubQ a
      in fold (polyToBytes_step a2) [0..<paramsN div 2] r)"

definition polyFromBytes_step :: "jsarray \<Rightarrow> nat \<Rightarrow> jsarray \<Rightarrow> jsarray" where
  "polyFromBytes_step a i r =
     (let r1 = jset r (2 * i)
                 (map_option int16
                    (js_and (js_or (map_option uint16 (jget a (3 * i)))
                                   (js_shl (map_option uint16 (jget a (3 * i + 1))) 8))
                            (Some 0xFFF)))
      in jset r1 (2 * i + 1)
           (map_option int16
              (js_and (js_or (js_shr (map_option uint16 (jget a (3 * i + 1))) 4)
                             (js_shl (map_option uint16 (jget a (3 * i + 2))) 4))
                      (Some 0xFFF))))"

definition polyFromBytes :: "jsarray \<Rightarrow> jsarray" where
  "polyFromBytes a =
     (let r = replicate paramsPolyBytes None
      in fold (polyFromBytes_step a) [0..<paramsN div 2] r)"

text \<open>
  In \<open>polyToMsg\<close> the halves are not integers: \<open>paramsQ / 2\<close> is 1664.5, which
  \<open>uint16\<close> returns unchanged, and the quotient by \<open>uint16(paramsQ) = 3329\<close> is a
  fraction, which \<open>& 1\<close> truncates towards zero (ToInt32). The shifted coefficient is
  an integer, so the sum is exact and the quotient is a multiple of \<open>1 / 6658\<close>, which
  the rounding of the division cannot move across an integer: the truncated rational
  quotient is the truncated double.
\<close>

definition js_toInt32_rat :: "rat \<Rightarrow> int" where
  "js_toInt32_rat x = signed_take_bit 31 (if 0 \<le> x then \<lfloor>x\<rfloor> else \<lceil>x\<rceil>)"

definition polyToMsg_t :: "int option \<Rightarrow> int option" where
  "polyToMsg_t c =
     Some (js_toInt32_rat
             ((of_int (toInt32 (js_shl (map_option uint16 c) 1)) + of_int paramsQ / 2)
              / of_int (uint16 paramsQ))
           AND 1)"

definition polyToMsg_inner :: "jsarray \<Rightarrow> nat \<Rightarrow> nat \<Rightarrow> jsarray \<Rightarrow> jsarray" where
  "polyToMsg_inner a2 i j message =
     (let t = polyToMsg_t (jget a2 (8 * i + j))
      in jset message i (js_or (jget message i) (map_option byte (js_shl t j))))"

definition polyToMsg :: "jsarray \<Rightarrow> jsarray" where
  "polyToMsg a =
     (let message = replicate 32 (Some 0);
          a2 = polyConditionalSubQ a
      in fold (\<lambda>i. fold (polyToMsg_inner a2 i) [0..<8]) [0..<paramsN div 8] message)"

definition polyFromData_inner :: "jsarray \<Rightarrow> nat \<Rightarrow> nat \<Rightarrow> jsarray \<Rightarrow> jsarray" where
  "polyFromData_inner message i j r =
     (let mask = js_neg (map_option int16 (js_and (js_shr (jget message i) j) (Some 1)))
      in jset r (8 * i + j) (js_and mask (Some (int16 ((paramsQ + 1) div 2)))))"

definition polyFromData :: "jsarray \<Rightarrow> jsarray" where
  "polyFromData message =
     (let r = replicate paramsPolyBytes (Some 0)
      in fold (\<lambda>i. fold (polyFromData_inner message i) [0..<8]) [0..<paramsN div 8] r)"

text \<open>The value the two assignments of \<open>polyConditionalSubQ\<close> leave in a slot.\<close>

definition csubq :: "int option \<Rightarrow> int option" where
  "csubq v = js_add (js_sub v (Some paramsQ)) (js_and (js_shr (js_sub v (Some paramsQ)) 31) (Some paramsQ))"

section \<open>Reductions (byte-ops.ts)\<close>

text \<open>
  Modelled from the spec: \<open>byte-ops.ts\<close>, which defines \<open>barrettReduce\<close>,
  \<open>montgomeryReduce\<close> and \<open>modQMulMont\<close>, is not among the sources. Section 4.A of
  the specification gives them on integers: Barrett reduction of \<open>a\<close> is
  \<open>a - \<lfloor>a * 20159 / 2^26\<rfloor> * q\<close>; Montgomery reduction of \<open>a\<close> computes
  \<open>u = (a * qinv) mod 2^16\<close> read as a signed 16-bit value and returns
  \<open>(a - u * q) >> 16\<close>; \<open>modQMulMont(x, y)\<close> is the Montgomery reduction of \<open>x * y\<close>.
  The specification says nothing about a non-number; the model hands it on, as the
  arithmetic inside would.
\<close>

definition barrettReduce :: "int \<Rightarrow> int" where
  "barrettReduce a = a - (a * 20159 div 2 ^ 26) * paramsQ"

definition montgomeryReduce :: "int \<Rightarrow> int" where
  "montgomeryReduce a =
     (let u = signed_take_bit 15 (a * paramsQinv)
      in drop_bit 16 (a - u * paramsQ))"

fun modQMulMont :: "int option \<Rightarrow> int option \<Rightarrow> int option" where
  "modQMulMont (Some x) (Some y) = Some (montgomeryReduce (x * y))"
| "modQMulMont _ _ = None"

section \<open>The tables of roots (kyber.service.ts)\<close>

definition nttZetas :: "int list" where
  "nttZetas =
    [
     2285, 2571, 2970, 1812, 1493, 1422, 287, 202, 3158, 622, 1577, 182, 962,
     2127, 1855, 1468, 573, 2004, 264, 383, 2500, 1458, 1727, 3199, 2648, 1017,
     732, 608, 1787, 411, 3124, 1758, 1223, 652, 2777, 1015, 2036, 1491, 3047,
     1785, 516, 3321, 3009, 2663, 1711, 2167, 126, 1469, 2476, 3239, 3058, 830,
     107, 1908, 3082, 2378, 2931, 961, 1821, 2604, 448, 2264, 677, 2054, 2226,
     430, 555, 843, 2078, 871, 1550, 105, 422, 587, 177, 3094, 3038, 2869,
     1574, 1653, 3083, 778, 1159, 3182, 2552, 1483, 2727, 1119, 1739, 644, 2457,
     349, 418, 329, 3173, 3254, 817, 1097, 603, 610, 1322, 2044, 1864, 384,
     2114, 3193, 1218, 1994, 2455, 220, 2142, 1670, 2144, 1799, 2051, 794, 1819,
     2475, 2459, 478, 3221, 3021, 996, 991, 958, 1869, 1522, 1628
    ]"

definition nttZetasInv :: "int list" where
  "nttZetasInv =
    [
     1701, 1807, 1460, 2371, 2338, 2333, 308, 108, 2851, 870, 854, 1510, 2535,
     1278, 1530, 1185, 1659, 1187, 3109, 874, 1335, 2111, 136, 1215, 2945, 1465,
     1285, 2007, 2719, 2726, 2232, 2512, 75, 156, 3000, 2911, 2980, 872, 2685,
     1590, 2210, 602, 1846, 777, 147, 2170, 2551, 246, 1676, 1755, 460, 291,
     235, 3152, 2742, 2907, 3224, 1779, 2458, 1251, 2486, 2774, 2899, 1103, 1275,
     2652, 1065, 2881, 725, 1508, 2368, 398, 951, 247, 1421, 3222, 2499, 271,
     90, 853, 1860, 3203, 1162, 1618, 666, 320, 8, 2813, 1544, 282, 1838,
     1293, 2314, 552, 2677, 2106, 1571, 205, 2918, 1542, 2721, 2597, 2312, 681,
     130, 1602, 1871, 829, 2946, 3065, 1325, 2756, 1861, 1474, 1202, 2367, 3147,
     1752, 2707, 171, 3127, 3042, 1907, 1836, 1517, 359, 758, 1441
    ]"

text \<open>\<open>table[k]\<close>: \<open>undefined\<close> past the end.\<close>

definition table_at :: "int list \<Rightarrow> nat \<Rightarrow> int option" where
  "table_at t k = (if k < length t then Some (t ! k) else None)"

section \<open>The number-theoretic transform (poly.ts)\<close>

text \<open>
  The three nested loops of \<open>ntt\<close> share \<open>j\<close> and \<open>k\<close>: the innermost loop leaves
  \<open>j\<close> at its bound, from which the middle loop computes the next \<open>start\<close>. The
  model passes them along. The second assignment of the butterfly reads \<open>r[j]\<close>
  after the first has written \<open>r[j + l]\<close>.
\<close>

definition ntt_butterfly :: "int option \<Rightarrow> nat \<Rightarrow> nat \<Rightarrow> jsarray \<Rightarrow> jsarray" where
  "ntt_butterfly zeta l j r =
     (let t = modQMulMont zeta (jget r (j + l));
          r1 = jset r (j + l) (map_option int16 (js_sub (jget r j) t))
      in jset r1 j (map_option int16 (js_add (jget r1 j) t)))"

function ntt_inner :: "int option \<Rightarrow> nat \<Rightarrow> nat \<Rightarrow> jsarray \<Rightarrow> nat \<Rightarrow> jsarray \<times> nat" where
  "ntt_inner zeta l start r j =
     (if j < start + l then ntt_inner zeta l start (ntt_butterfly zeta l j r) (j + 1)
      else (r, j))"
  by pat_completeness auto
termination
  by (relation "measure (\<lambda>(zeta, l, start, r, j). start + l - j)") auto

declare ntt_inner.simps [simp del]

lemma ntt_inner_j: "start \<le> j \<Longrightarrow> start \<le> snd (ntt_inner zeta l start r j)"
proof (induction zeta l start r j rule: ntt_inner.induct)
  case (1 zeta l start r j)
  show ?case
  proof (cases "j < start + l")
    case True
    with 1 show ?thesis
      by (subst ntt_inner.simps) simp
  next
    case False
    with 1 show ?thesis
      by (subst ntt_inner.simps) simp
  qed
qed

lemma ntt_inner_progress:
  "start < 256 \<Longrightarrow> 0 < l \<Longrightarrow>
   256 - (snd (ntt_inner zeta l start r start) + l) < 256 - start"
  using ntt_inner_j [of start start zeta l r] by simp

text \<open>
  \<open>l\<close> is never 0 (it runs over 128, 64, ..., 2); the conjunct \<open>0 < l\<close> only makes
  the recursion well-founded.
\<close>

function ntt_middle :: "nat \<Rightarrow> jsarray \<times> nat \<times> nat \<Rightarrow> nat \<Rightarrow> jsarray \<times> nat \<times> nat" where
  "ntt_middle l (r, j, k) start =
     (if start < 256 \<and> 0 < l
      then (let zeta = table_at nttZetas k;
                rj = ntt_inner zeta l start r start
            in ntt_middle l (fst rj, snd rj, k + 1) (snd rj + l))
      else (r, j, k))"
  by pat_completeness auto
termination
  by (relation "measure (\<lambda>(l, s, start). 256 - start)") (simp_all add: ntt_inner_progress)

function ntt_outer :: "nat \<Rightarrow> jsarray \<times> nat \<times> nat \<Rightarrow> jsarray" where
  "ntt_outer l s = (if 2 \<le> l then ntt_outer (l div 2) (ntt_middle l s 0) else fst s)"
  by pat_completeness auto
termination
  by (relation "measure (\<lambda>(l, s). l)") auto

definition ntt :: "jsarray \<Rightarrow> jsarray" where
  "ntt r = ntt_outer 128 (r, 0, 1)"

definition invNTT_butterfly :: "int option \<Rightarrow> nat \<Rightarrow> nat \<Rightarrow> jsarray \<Rightarrow> jsarray" where
  "invNTT_butterfly zeta l j r =
     (let t = jget r j;
          r1 = jset r j (map_option barrettReduce (js_add t (jget r (j + l))));
          r2 = jset r1 (j + l) (js_sub t (jget r1 (j + l)))
      in jset r2 (j + l) (modQMulMont zeta (jget r2 (j + l))))"

function invNTT_inner :: "int option \<Rightarrow> nat \<Rightarrow> nat \<Rightarrow> jsarray \<Rightarrow> nat \<Rightarrow> jsarray \<times> nat" where
  "invNTT_inner zeta l start r j =
     (if j < start + l then invNTT_inner zeta l start (invNTT_butterfly zeta l j r) (j + 1)
      else (r, j))"
  by pat_completeness auto
termination
  by (relation "measure (\<lambda>(zeta, l, start, r, j). start + l - j)") auto

declare invNTT_inner.simps [simp del]

lemma invNTT_inner_j: "start \<le> j \<Longrightarrow> start \<le> snd (invNTT_inner zeta l start r j)"
proof (induction zeta l start r j rule: invNTT_inner.induct)
  case (1 zeta l start r j)
  show ?case
  proof (cases "j < start + l")
    case True
    with 1 show ?thesis
      by (subst invNTT_inner.simps) simp
  next
    case False
    with 1 show ?thesis
      by (subst invNTT_inner.simps) simp
  qed
qed

lemma invNTT_inner_progress:
  "start < 256 \<Longrightarrow> 0 < l \<Longrightarrow>
   256 - (snd (invNTT_inner zeta l start r start) + l) < 256 - start"
  using invNTT_inner_j [of start start zeta l r] by simp

function invNTT_middle :: "nat \<Rightarrow> jsarray \<times> nat \<times> nat \<Rightarrow> nat \<Rightarrow> jsarray \<times> nat \<times> nat" where
  "invNTT_middle l (r, j, k) start =
     (if start < 256 \<and> 0 < l
      then (let zeta = table_at nttZetasInv k;
                rj = invNTT_inner zeta l start r start
            in invNTT_middle l (fst rj, snd rj, k + 1) (snd rj + l))
      else (r, j, k))"
  by pat_completeness auto
termination
  by (relation "measure (\<lambda>(l, s, start). 256 - start)") (simp_all add: invNTT_inner_progress)

text \<open>
  \<open>l\<close> starts at 2 and doubles; the conjunct \<open>0 < l\<close> only makes the recursion
  well-founded.
\<close>

function invNTT_outer :: "nat \<Rightarrow> jsarray \<times> nat \<times> nat \<Rightarrow> jsarray" where
  "invNTT_outer l s =
     (if l \<le> 128 \<and> 0 < l then invNTT_outer (2 * l) (invNTT_middle l s 0) else fst s)"
  by pat_completeness auto
termination
  by (relation "measure (\<lambda>(l, s). 129 - l)") auto

definition invNTT :: "jsarray \<Rightarrow> jsarray" where
  "invNTT r =
     fold (\<lambda>j r. jset r j (modQMulMont (jget r j) (table_at nttZetasInv 127))) [0..<256]
       (invNTT_outer 2 (r, 0, 0))"

section \<open>Multiplication in the NTT domain (poly.ts)\<close>

text \<open>
  \<open>polyBaseMulMont\<close> and \<open>polyVectorPointWiseAccMont\<close> write into arrays that
  their callers hold. Their model is over a heap: \<open>arrays\<close> maps a reference to the
  array it denotes, and \<open>fresh\<close> is the next free reference, which \<open>new Array\<close>
  returns. A polynomial argument is a reference; a vector (\<open>number[][]\<close>) is the list
  of the references it holds.
\<close>

record heap =
  arrays :: "nat \<Rightarrow> jsarray"
  fresh :: nat

text \<open>The assignment \<open>a[i] = v\<close> through the reference \<open>a\<close>.\<close>

definition assign :: "heap \<Rightarrow> nat \<Rightarrow> nat \<Rightarrow> int option \<Rightarrow> heap" where
  "assign h a i v = h\<lparr>arrays := (arrays h)(a := jset (arrays h a) i v)\<rparr>"

definition nttBaseMuliplier ::
  "int option \<Rightarrow> int option \<Rightarrow> int option \<Rightarrow> int option \<Rightarrow> int option
   \<Rightarrow> int option \<times> int option" where
  "nttBaseMuliplier a0 a1 b0 b1 zeta =
     (js_add (modQMulMont (modQMulMont a1 b1) zeta) (modQMulMont a0 b0),
      js_add (modQMulMont a0 b1) (modQMulMont a1 b0))"

definition polyBaseMulMont_step :: "nat \<Rightarrow> nat \<Rightarrow> nat \<Rightarrow> heap \<Rightarrow> heap" where
  "polyBaseMulMont_step a b i h =
     (let rx = nttBaseMuliplier
                 (jget (arrays h a) (4 * i)) (jget (arrays h a) (4 * i + 1))
                 (jget (arrays h b) (4 * i)) (jget (arrays h b) (4 * i + 1))
                 (table_at nttZetas (64 + i));
          ry = nttBaseMuliplier
                 (jget (arrays h a) (4 * i + 2)) (jget (arrays h a) (4 * i + 3))
                 (jget (arrays h b) (4 * i + 2)) (jget (arrays h b) (4 * i + 3))
                 (js_neg (table_at nttZetas (64 + i)));
          h1 = assign h a (4 * i) (fst rx);
          h2 = assign h1 a (4 * i + 1) (snd rx);
          h3 = assign h2 a (4 * i + 2) (fst ry)
      in assign h3 a (4 * i + 3) (snd ry))"

definition polyBaseMulMont :: "heap \<Rightarrow> nat \<Rightarrow> nat \<Rightarrow> heap \<times> nat" where
  "polyBaseMulMont h a b = (fold (polyBaseMulMont_step a b) [0..<paramsN div 4] h, a)"

text \<open>
  \<open>polyAdd\<close> fills a new array of the length of \<open>a\<close>; \<open>polyReduce\<close> works in
  place on a single array. Their loops are given on the arrays, and the methods on
  the heap: the new array of \<open>polyAdd\<close> is another array than \<open>a\<close> and \<open>b\<close>.
\<close>

definition polyAdd_array :: "jsarray \<Rightarrow> jsarray \<Rightarrow> jsarray" where
  "polyAdd_array a b =
     (let c = replicate (length a) None
      in fold (\<lambda>i c. jset c i (js_add (jget a i) (jget b i))) [0..<paramsN] c)"

definition polyAdd :: "heap \<Rightarrow> nat \<Rightarrow> nat \<Rightarrow> heap \<times> nat" where
  "polyAdd h a b =
     (let c = fresh h
      in (h\<lparr>arrays := (arrays h)(c := polyAdd_array (arrays h a) (arrays h b)),
            fresh := fresh h + 1\<rparr>, c))"

definition polyReduce_array :: "jsarray \<Rightarrow> jsarray" where
  "polyReduce_array r =
     fold (\<lambda>i r. jset r i (map_option barrettReduce (jget r i))) [0..<paramsN] r"

definition polyReduce :: "heap \<Rightarrow> nat \<Rightarrow> heap \<times> nat" where
  "polyReduce h r = (h\<lparr>arrays := (arrays h)(r := polyReduce_array (arrays h r))\<rparr>, r)"

text \<open>
  \<open>a[i]\<close> of a vector is \<open>undefined\<close> past its end, and \<open>polyBaseMulMont\<close> throws
  a TypeError when it indexes \<open>undefined\<close>, before it has written anything.
\<close>

datatype error = TypeError

definition vec_at :: "nat list \<Rightarrow> nat \<Rightarrow> error + nat" where
  "vec_at v i = (if i < length v then Inr (v ! i) else Inl TypeError)"

function polyVectorPointWiseAccMont_loop ::
  "nat \<Rightarrow> nat list \<Rightarrow> nat list \<Rightarrow> nat \<Rightarrow> heap \<times> nat \<Rightarrow> error + heap \<times> nat" where
  "polyVectorPointWiseAccMont_loop paramsK a b i hr =
     (if i < paramsK
      then (case vec_at a i of
              Inl e \<Rightarrow> Inl e
            | Inr ai \<Rightarrow>
                (case vec_at b i of
                   Inl e \<Rightarrow> Inl e
                 | Inr bi \<Rightarrow>
                     (let ht = polyBaseMulMont (fst hr) ai bi
                      in polyVectorPointWiseAccMont_loop paramsK a b (i + 1)
                           (polyAdd (fst ht) (snd hr) (snd ht)))))
      else Inr hr)"
  by pat_completeness auto
termination
  by (relation "measure (\<lambda>(paramsK, a, b, i, hr). paramsK - i)") auto

definition polyVectorPointWiseAccMont ::
  "nat \<Rightarrow> heap \<Rightarrow> nat list \<Rightarrow> nat list \<Rightarrow> error + heap \<times> nat" where
  "polyVectorPointWiseAccMont paramsK h a b =
     (case vec_at a 0 of
        Inl e \<Rightarrow> Inl e
      | Inr a0 \<Rightarrow>
          (case vec_at b 0 of
             Inl e \<Rightarrow> Inl e
           | Inr b0 \<Rightarrow>
               (case polyVectorPointWiseAccMont_loop paramsK a b 1 (polyBaseMulMont h a0 b0) of
                  Inl e \<Rightarrow> Inl e
                | Inr hr \<Rightarrow> Inr (polyReduce (fst hr) (snd hr)))))"

text \<open>
  The product that \<open>polyBaseMulMont\<close> computes, as a function of the contents of
  its two arguments: the array that the loop leaves in \<open>a\<close> when \<open>b\<close> is another array.
\<close>

definition baseMul_step :: "jsarray \<Rightarrow> nat \<Rightarrow> jsarray \<Rightarrow> jsarray" where
  "baseMul_step b i a =
     (let rx = nttBaseMuliplier (jget a (4 * i)) (jget a (4 * i + 1))
                 (jget b (4 * i)) (jget b (4 * i + 1)) (table_at nttZetas (64 + i));
          ry = nttBaseMuliplier (jget a (4 * i + 2)) (jget a (4 * i + 3))
                 (jget b (4 * i + 2)) (jget b (4 * i + 3)) (js_neg (table_at nttZetas (64 + i)))
      in jset (jset (jset (jset a (4 * i) (fst rx)) (4 * i + 1) (snd rx))
                (4 * i + 2) (fst ry)) (4 * i + 3) (snd ry))"

definition baseMul :: "jsarray \<Rightarrow> jsarray \<Rightarrow> jsarray" where
  "baseMul a b = fold (baseMul_step b) [0..<paramsN div 4] a"

section \<open>Other methods that read a polynomial (poly.ts)\<close>

definition polyToMont :: "jsarray \<Rightarrow> jsarray" where
  "polyToMont r =
     fold (\<lambda>i r. jset r i
             (map_option montgomeryReduce
                (js_mul (map_option int32 (jget r i)) (Some (int32 1353)))))
       [0..<paramsN] r"

text \<open>\<open>subtract(a, b)\<close> works in place on \<open>a\<close>; the model returns \<open>a\<close>.\<close>

definition subtract :: "jsarray \<Rightarrow> jsarray \<Rightarrow> jsarray" where
  "subtract a b = fold (\<lambda>i a. jset a i (js_sub (jget a i) (jget b i))) [0..<paramsN] a"

text \<open>
  The compression divides by \<open>q\<close> after adding \<open>paramsQ / 2 = 1664.5\<close>. The dividend
  is the result \<open>v\<close> of a shift, a 32-bit integer, so the quotient is a fraction below
  \<open>2^31\<close> in magnitude, which \<open>int32\<close> returns unchanged and the following \<open>&\<close>
  truncates towards zero.
\<close>

definition quotient_q :: "int \<Rightarrow> int" where
  "quotient_q v = js_toInt32_rat ((of_int v + of_int paramsQ / 2) / of_int paramsQ)"

definition compressPoly_t :: "jsarray \<Rightarrow> nat \<Rightarrow> int \<Rightarrow> nat \<Rightarrow> nat \<Rightarrow> int option" where
  "compressPoly_t polyA d m i j =
     (let step1 = map_option int32 (js_shl (jget polyA (8 * i + j)) d);
          step2 = quotient_q (toInt32 step1)
      in map_option intToByte (js_and (Some step2) (Some m)))"

definition compressPoly_step4 :: "jsarray \<Rightarrow> nat \<Rightarrow> jsarray \<times> nat \<Rightarrow> jsarray \<times> nat" where
  "compressPoly_step4 polyA i s =
     (let r = fst s; rr = snd s;
          t = map (compressPoly_t polyA 4 15 i) [0..<8];
          r1 = jset r rr (map_option intToByte (js_or (jget t 0) (js_shl (jget t 1) 4)));
          r2 = jset r1 (rr + 1) (map_option intToByte (js_or (jget t 2) (js_shl (jget t 3) 4)));
          r3 = jset r2 (rr + 2) (map_option intToByte (js_or (jget t 4) (js_shl (jget t 5) 4)));
          r4 = jset r3 (rr + 3) (map_option intToByte (js_or (jget t 6) (js_shl (jget t 7) 4)))
      in (r4, rr + 4))"

definition compressPoly_step5 :: "jsarray \<Rightarrow> nat \<Rightarrow> jsarray \<times> nat \<Rightarrow> jsarray \<times> nat" where
  "compressPoly_step5 polyA i s =
     (let r = fst s; rr = snd s;
          t = map (compressPoly_t polyA 5 31 i) [0..<8];
          r1 = jset r rr (map_option intToByte (js_or (jget t 0) (js_shl (jget t 1) 5)));
          r2 = jset r1 (rr + 1)
                 (map_option intToByte
                    (js_or (js_or (js_shr (jget t 1) 3) (js_shl (jget t 2) 2)) (js_shl (jget t 3) 7)));
          r3 = jset r2 (rr + 2) (map_option intToByte (js_or (js_shr (jget t 3) 1) (js_shl (jget t 4) 4)));
          r4 = jset r3 (rr + 3)
                 (map_option intToByte
                    (js_or (js_or (js_shr (jget t 4) 4) (js_shl (jget t 5) 1)) (js_shl (jget t 6) 6)));
          r5 = jset r4 (rr + 4) (map_option intToByte (js_or (js_shr (jget t 6) 2) (js_shl (jget t 7) 3)))
      in (r5, rr + 5))"

definition compressPoly :: "nat \<Rightarrow> jsarray \<Rightarrow> jsarray" where
  "compressPoly paramsK polyA =
     (if paramsK = 2 \<or> paramsK = 3
      then fst (fold (compressPoly_step4 polyA) [0..<paramsN div 8] ([], 0))
      else fst (fold (compressPoly_step5 polyA) [0..<paramsN div 8] ([], 0)))"

text \<open>
  A vector of polynomials is here the list of its arrays, each another array than
  the others. \<open>polyVectorCSubQ\<close> indexes
  the vector up to \<open>paramsK\<close>, and \<open>polyConditionalSubQ\<close> throws a TypeError on the
  \<open>undefined\<close> it finds past the end.
\<close>

definition polyVectorCSubQ :: "nat \<Rightarrow> jsarray list \<Rightarrow> error + jsarray list" where
  "polyVectorCSubQ paramsK r =
     (if paramsK \<le> length r
      then Inr (fold (\<lambda>i r. r[i := polyConditionalSubQ (r ! i)]) [0..<paramsK] r)
      else Inl TypeError)"

definition compressPolyVector_t10 :: "jsarray \<Rightarrow> nat \<Rightarrow> nat \<Rightarrow> int option" where
  "compressPolyVector_t10 ai j k =
     js_and (Some (quotient_q (toInt32 (js_shl (jget ai (4 * j + k)) 10)))) (Some 0x3FF)"

definition compressPolyVector_step10 ::
  "jsarray \<Rightarrow> nat \<Rightarrow> jsarray \<times> nat \<Rightarrow> jsarray \<times> nat" where
  "compressPolyVector_step10 ai j s =
     (let r = fst s; rr = snd s;
          t = map (compressPolyVector_t10 ai j) [0..<4];
          r1 = jset r rr (map_option byte (jget t 0));
          r2 = jset r1 (rr + 1)
                 (map_option byte
                    (js_or (map_option byte (js_shr (jget t 0) 8)) (map_option byte (js_shl (jget t 1) 2))));
          r3 = jset r2 (rr + 2)
                 (map_option byte
                    (js_or (map_option byte (js_shr (jget t 1) 6)) (map_option byte (js_shl (jget t 2) 4))));
          r4 = jset r3 (rr + 3)
                 (map_option byte
                    (js_or (map_option byte (js_shr (jget t 2) 4)) (map_option byte (js_shl (jget t 3) 6))));
          r5 = jset r4 (rr + 4) (map_option byte (js_shr (jget t 3) 2))
      in (r5, rr + 5))"

definition compressPolyVector_t11 :: "jsarray \<Rightarrow> nat \<Rightarrow> nat \<Rightarrow> int option" where
  "compressPolyVector_t11 ai j k =
     map_option int32
       (js_and (Some (quotient_q (toInt32 (js_shl (map_option int32 (jget ai (8 * j + k))) 11))))
               (Some 0x7FF))"

definition compressPolyVector_step11 ::
  "jsarray \<Rightarrow> nat \<Rightarrow> jsarray \<times> nat \<Rightarrow> jsarray \<times> nat" where
  "compressPolyVector_step11 ai j s =
     (let r = fst s; rr = snd s;
          t = map (compressPolyVector_t11 ai j) [0..<8];
          r1 = jset r rr (map_option byte (jget t 0));
          r2 = jset r1 (rr + 1) (map_option byte (js_or (js_shr (jget t 0) 8) (js_shl (jget t 1) 3)));
          r3 = jset r2 (rr + 2) (map_option byte (js_or (js_shr (jget t 1) 5) (js_shl (jget t 2) 6)));
          r4 = jset r3 (rr + 3) (map_option byte (js_shr (jget t 2) 2));
          r5 = jset r4 (rr + 4) (map_option byte (js_or (js_shr (jget t 2) 10) (js_shl (jget t 3) 1)));
          r6 = jset r5 (rr + 5) (map_option byte (js_or (js_shr (jget t 3) 7) (js_shl (jget t 4) 4)));
          r7 = jset r6 (rr + 6) (map_option byte (js_or (js_shr (jget t 4) 4) (js_shl (jget t 5) 7)));
          r8 = jset r7 (rr + 7) (map_option byte (js_shr (jget t 5) 1));
          r9 = jset r8 (rr + 8) (map_option byte (js_or (js_shr (jget t 5) 9) (js_shl (jget t 6) 2)));
          r10 = jset r9 (rr + 9) (map_option byte (js_or (js_shr (jget t 6) 6) (js_shl (jget t 7) 5)));
          r11 = jset r10 (rr + 10) (map_option byte (js_shr (jget t 7) 3))
      in (r11, rr + 11))"

definition compressPolyVector :: "nat \<Rightarrow> jsarray list \<Rightarrow> error + jsarray" where
  "compressPolyVector paramsK a =
     (case polyVectorCSubQ paramsK a of
        Inl e \<Rightarrow> Inl e
      | Inr a \<Rightarrow>
          (if paramsK = 2 \<or> paramsK = 3
           then Inr (fst (fold (\<lambda>i. fold (compressPolyVector_step10 (a ! i)) [0..<paramsN div 4])
                            [0..<paramsK] ([], 0)))
           else Inr (fst (fold (\<lambda>i. fold (compressPolyVector_step11 (a ! i)) [0..<paramsN div 8])
                            [0..<paramsK] ([], 0)))))"

section \<open>The key encapsulation (kyber.service.ts)\<close>

text \<open>
  The service calls code that is not part of the modelled sources: the hash functions
  of the \<open>sha3\<close> package and the IND-CPA scheme of \<open>indcpa.ts\<close>. They are
  parameters of the model, collected in a record. A hash object that is updated
  twice and then digested hashes the concatenation of the two inputs. Byte arrays
  are lists of integers; \<open>Buffer.from\<close> keeps the low eight bits of every element.
\<close>

record externals =
  sha3_256 :: "int list \<Rightarrow> int list"
  sha3_512 :: "int list \<Rightarrow> int list"
  shake256 :: "int list \<Rightarrow> int list"
  indcpaEncrypt :: "nat \<Rightarrow> int list \<Rightarrow> int list \<Rightarrow> int list \<Rightarrow> int list"
  indcpaDecrypt :: "nat \<Rightarrow> int list \<Rightarrow> int list \<Rightarrow> int list"

definition Buffer_from :: "int list \<Rightarrow> int list" where
  "Buffer_from xs = map (\<lambda>x. x mod 256) xs"

text \<open>\<open>xs.slice(s, e)\<close> for \<open>0 \<le> s\<close> and \<open>0 \<le> e\<close>.\<close>

definition slice :: "int list \<Rightarrow> nat \<Rightarrow> nat \<Rightarrow> int list" where
  "slice xs s e = take (e - s) (drop s xs)"

text \<open>\<open>xs[i]\<close> of a byte array for an index that may be negative or past the end.\<close>

definition byte_at :: "int list \<Rightarrow> int \<Rightarrow> int option" where
  "byte_at xs i = (if 0 \<le> i \<and> i < int (length xs) then Some (xs ! nat i) else None)"

definition paramsIndcpaSecretKeyBytes :: "nat \<Rightarrow> nat" where
  "paramsIndcpaSecretKeyBytes paramsK =
     (if paramsK = 2 then 2 * paramsPolyBytes
      else if paramsK = 3 then 3 * paramsPolyBytes
      else 4 * paramsPolyBytes)"

definition paramsIndcpaPublicKeyBytes :: "nat \<Rightarrow> nat" where
  "paramsIndcpaPublicKeyBytes paramsK =
     (if paramsK = 2 then 2 * paramsPolyBytes + paramsSymBytes
      else if paramsK = 3 then 3 * paramsPolyBytes + paramsSymBytes
      else 4 * paramsPolyBytes + paramsSymBytes)"

text \<open>
  \<open>generateKyberKeys\<close>: the key pair of \<open>indcpaKeyGen\<close> and the 32 random bytes
  \<open>rnd\<close> are inputs of the model.
\<close>

definition generateKyberKeys ::
  "externals \<Rightarrow> int list \<times> int list \<Rightarrow> int list \<Rightarrow> int list \<times> int list" where
  "generateKyberKeys E keys rnd =
     (let pk = fst keys; sk = snd keys;
          pkHash = sha3_256 E (Buffer_from pk)
      in (pk, sk @ pk @ pkHash @ Buffer_from rnd))"

text \<open>\<open>encrypt\<close>: the 32 random bytes \<open>rnd\<close> are an input of the model.\<close>

definition encrypt :: "externals \<Rightarrow> nat \<Rightarrow> int list \<Rightarrow> int list \<Rightarrow> int list \<times> int list" where
  "encrypt E paramsK publicKey rnd =
     (let rndHash = sha3_256 E (Buffer_from rnd);
          pkh = sha3_256 E (Buffer_from publicKey);
          kr = sha3_512 E (rndHash @ pkh);
          kr1Buffer = slice kr 0 paramsSymBytes;
          kr2 = slice kr paramsSymBytes (length kr);
          cipherText = indcpaEncrypt E paramsK publicKey rndHash kr2;
          cipherTextHash = sha3_256 E (Buffer_from cipherText);
          sharedSecret = shake256 E (kr1Buffer @ cipherTextHash)
      in (cipherText, sharedSecret))"

text \<open>
  \<open>decrypt\<close>. \<open>kr\<close> is a copy of the digest \<open>krBuf\<close> (\<open>[...krBuf]\<close>), while
  \<open>kr1\<close> is a slice of \<open>krBuf\<close> itself. The loop assigns to the copy \<open>kr\<close>, which
  nothing reads afterwards; the final hash absorbs \<open>kr1\<close>.
\<close>

definition decrypt_kr_step ::
  "int \<Rightarrow> int list \<Rightarrow> nat \<Rightarrow> jsarray \<Rightarrow> jsarray" where
  "decrypt_kr_step fail privateKey i kr =
     (let index = int (length privateKey) - int paramsSymBytes + int i
      in jset kr i
           (map_option intToByte
              (js_xor (jget kr i)
                 (js_and (js_and (Some fail) (Some 0xFF))
                         (js_xor (jget kr i) (byte_at privateKey index))))))"

definition decrypt :: "externals \<Rightarrow> nat \<Rightarrow> int list \<Rightarrow> int list \<Rightarrow> int list" where
  "decrypt E paramsK cipherText privateKey =
     (let endIndex1 = paramsIndcpaSecretKeyBytes paramsK;
          indcpaPrivateKey = slice privateKey 0 endIndex1;
          endIndex2 = endIndex1 + paramsIndcpaPublicKeyBytes paramsK;
          indcpaPublicKey = slice privateKey endIndex1 endIndex2;
          endIndex3 = endIndex2 + paramsSymBytes;
          pkHash = slice privateKey endIndex2 endIndex3;
          m = indcpaDecrypt E paramsK cipherText indcpaPrivateKey;
          krBuf = sha3_512 E (Buffer_from m @ Buffer_from pkHash);
          kr = map Some krBuf;
          kr1 = slice krBuf 0 paramsSymBytes;
          kr2 = slice krBuf paramsSymBytes (length kr);
          cmp = indcpaEncrypt E paramsK indcpaPublicKey m kr2;
          fail = constantTimeCompare cipherText cmp;
          kr' = fold (decrypt_kr_step fail privateKey) [0..<paramsSymBytes] kr;
          cipherTextHash = sha3_256 E (Buffer_from cipherText);
          sharedSecret = shake256 E (kr1 @ cipherTextHash)
      in sharedSecret)"

text \<open>
  What the specification asks of \<open>decrypt\<close> (implicit rejection): the 32 bytes
  absorbed before the hash of the ciphertext are \<open>K'\<close> when the re-encryption equals
  the ciphertext and the last 32 bytes \<open>z\<close> of the private key otherwise.
\<close>

definition decrypt_spec :: "externals \<Rightarrow> nat \<Rightarrow> int list \<Rightarrow> int list \<Rightarrow> int list" where
  "decrypt_spec E paramsK cipherText privateKey =
     (let endIndex1 = paramsIndcpaSecretKeyBytes paramsK;
          indcpaPrivateKey = slice privateKey 0 endIndex1;
          endIndex2 = endIndex1 + paramsIndcpaPublicKeyBytes paramsK;
          indcpaPublicKey = slice privateKey endIndex1 endIndex2;
          pkHash = slice privateKey endIndex2 (endIndex2 + paramsSymBytes);
          z = slice privateKey (length privateKey - paramsSymBytes) (length privateKey);
          m = indcpaDecrypt E paramsK cipherText indcpaPrivateKey;
          krBuf = sha3_512 E (Buffer_from m @ Buffer_from pkHash);
          cmp = indcpaEncrypt E paramsK indcpaPublicKey m (slice krBuf paramsSymBytes (length krBuf));
          kbar = (if cipherText = cmp then slice krBuf 0 paramsSymBytes else z)
      in shake256 E (kbar @ sha3_256 E (Buffer_from cipherText)))"

section \<open>Notions for the proofs about the transform\<close>

text \<open>
  The values a butterfly of \<open>ntt\<close> leaves in its lower and upper slot, from the
  values \<open>x\<close> and \<open>y\<close> the slots held, and the same for \<open>invNTT\<close>.
\<close>

definition ntt_lo :: "int option \<Rightarrow> int option \<Rightarrow> int option \<Rightarrow> int option" where
  "ntt_lo zeta x y = map_option int16 (js_add x (modQMulMont zeta y))"

definition ntt_hi :: "int option \<Rightarrow> int option \<Rightarrow> int option \<Rightarrow> int option" where
  "ntt_hi zeta x y = map_option int16 (js_sub x (modQMulMont zeta y))"

definition invNTT_lo :: "int option \<Rightarrow> int option \<Rightarrow> int option \<Rightarrow> int option" where
  "invNTT_lo zeta x y = map_option barrettReduce (js_add x y)"

definition invNTT_hi :: "int option \<Rightarrow> int option \<Rightarrow> int option \<Rightarrow> int option" where
  "invNTT_hi zeta x y = modQMulMont zeta (js_sub x y)"

text \<open>
  \<open>coeffs_le B r\<close>: the 256 coefficients of \<open>r\<close> are numbers of absolute value at
  most \<open>B\<close>. \<open>scaled c r s\<close>: coefficient by coefficient, \<open>r\<close> is congruent to \<open>c\<close>
  times \<open>s\<close> modulo \<open>q = 3329\<close>. \<open>layer_ok n l kinv\<close>: the layer of length \<open>l\<close> has
  \<open>n\<close> blocks, and the root \<open>nttZetas[n + g]\<close> of block \<open>g\<close> and the root
  \<open>nttZetasInv[kinv + g]\<close> of the inverse layer multiply to \<open>2^32\<close> modulo \<open>q\<close>
  (\<open>28561 = 169^2\<close> is the inverse of \<open>2^32\<close>).
\<close>

definition coeffs_le :: "int \<Rightarrow> jsarray \<Rightarrow> bool" where
  "coeffs_le B r \<longleftrightarrow> (\<forall>i<256. \<exists>x. jget r i = Some x \<and> \<bar>x\<bar> \<le> B)"

definition scaled :: "int \<Rightarrow> jsarray \<Rightarrow> jsarray \<Rightarrow> bool" where
  "scaled c r s \<longleftrightarrow>
     (\<forall>i<256. \<exists>x y. jget r i = Some x \<and> jget s i = Some y \<and> 3329 dvd (x - c * y))"

definition layer_ok :: "nat \<Rightarrow> nat \<Rightarrow> nat \<Rightarrow> bool" where
  "layer_ok n l kinv \<longleftrightarrow>
     0 < l \<and> n * (2 * l) = 256 \<and>
     (\<forall>g<n. \<exists>z z'. table_at nttZetas (n + g) = Some z \<and> table_at nttZetasInv (kinv + g) = Some z'
        \<and> 0 \<le> z \<and> z < 3329 \<and> 3329 dvd (28561 * z * z' - 1))"

text \<open>
  \<open>same_coeffs r r'\<close>: the arrays \<open>r\<close> and \<open>r'\<close> hold the same values in the slots
  \<open>0..255\<close>, whatever their lengths and their other slots.
\<close>

definition same_coeffs :: "jsarray \<Rightarrow> jsarray \<Rightarrow> bool" where
  "same_coeffs r r' \<longleftrightarrow> (\<forall>i<paramsN. jget r i = jget r' i)"

text \<open>
  Stand-ins for the external functions, to run \<open>decrypt\<close> on: every hash is a
  constant or the identity, and the re-encryption never equals a non-empty ciphertext.
\<close>

definition example_externals :: externals where
  "example_externals =
     \<lparr> sha3_256 = (\<lambda>xs. []), sha3_512 = (\<lambda>xs. replicate 64 7), shake256 = (\<lambda>xs. xs),
       indcpaEncrypt = (\<lambda>k pk m r. []), indcpaDecrypt = (\<lambda>k c sk. []) \<rparr>"

section \<open>Closed forms of the casts\<close>

declare polyVectorPointWiseAccMont_loop.simps [simp del]

declare ntt_middle.simps [simp del] ntt_outer.simps [simp del]
  invNTT_middle.simps [simp del] invNTT_outer.simps [simp del]

declare byte_loop.simps [simp del] uint16_loop.simps [simp del]
  uint32_loop.simps [simp del] intToByte.simps [simp del]
  constantTimeCompare_loop.simps [simp del]

lemma wrap_mod:
  fixes r m :: int
  assumes "- m < r" "r < m"
  shows "(if r < 0 then r + m else r) = r mod m"
proof (cases "r < 0")
  case True
  have "r mod m = (r + m) mod m" by simp
  also have "\<dots> = r + m" using True assms by (intro mod_pos_pos_trivial) auto
  finally show ?thesis using True by simp
next
  case False
  then show ?thesis using assms by simp
qed

lemma js_rem_bounds:
  assumes "0 < m"
  shows "- m < js_rem n m \<and> js_rem n m < m"
proof -
  define a where "a = (- n) mod m"
  define b where "b = n mod m"
  have a: "0 \<le> a \<and> a < m"
    unfolding a_def using assms by (simp only: pos_mod_sign pos_mod_bound)
  have b: "0 \<le> b \<and> b < m"
    unfolding b_def using assms by (simp only: pos_mod_sign pos_mod_bound)
  have "js_rem n m = (if n < 0 then - a else b)"
    by (simp only: js_rem_def a_def b_def)
  with a b show ?thesis
    by auto
qed

lemma js_rem_mod: "0 < m \<Longrightarrow> js_rem n m mod m = n mod m"
  by (simp add: js_rem_def mod_minus_eq)

lemma uint16_loop_eq:
  "- 65536 < n \<Longrightarrow> n < 65536 \<Longrightarrow> uint16_loop n = (if n < 0 then n + 65536 else n)"
  by (subst uint16_loop.simps, simp, subst uint16_loop.simps, simp)

lemma uint16_eq: "uint16 n = n mod 65536"
proof -
  let ?r = "js_rem n 65536"
  have b: "- 65536 < ?r" "?r < 65536"
    using js_rem_bounds [of 65536 n] by simp_all
  have "uint16_loop ?r = ?r mod 65536"
    using b wrap_mod [of 65536 ?r] by (simp only: uint16_loop_eq)
  then show ?thesis
    using js_rem_mod [of 65536 n] by (simp add: uint16_def)
qed

lemma byte_loop_eq:
  "- 256 < n \<Longrightarrow> n < 256 \<Longrightarrow> byte_loop n = (if n < 0 then n + 256 else n)"
  by (subst byte_loop.simps, simp, subst byte_loop.simps, simp)

lemma byte_eq: "byte n = n mod 256"
proof -
  let ?r = "js_rem n 256"
  have b: "- 256 < ?r" "?r < 256"
    using js_rem_bounds [of 256 n] by simp_all
  have "byte_loop ?r = ?r mod 256"
    using b wrap_mod [of 256 ?r] by (simp only: byte_loop_eq)
  then show ?thesis
    using js_rem_mod [of 256 n] by (simp add: byte_def)
qed

lemma int16_id: "- 32768 \<le> n \<Longrightarrow> n \<le> 32767 \<Longrightarrow> int16 n = n"
  by (simp add: int16_def)

lemma uint32_loop_eq:
  "- 4294967296 < n \<Longrightarrow> n < 4294967296 \<Longrightarrow>
   uint32_loop n = (if n < 0 then n + 4294967296 else n) + 4294967296"
proof -
  assume b: "- 4294967296 < n" "n < 4294967296"
  have stop: "uint32_loop k = k" if "4294967296 \<le> k" for k
    using that by (subst uint32_loop.simps) simp
  show ?thesis
  proof (cases "n < 0")
    case True
    have "uint32_loop n = uint32_loop (n + 4294967296)"
      using b by (subst uint32_loop.simps) simp
    also have "\<dots> = uint32_loop (n + 4294967296 + 4294967296)"
      using True by (subst uint32_loop.simps) simp
    also have "\<dots> = n + 4294967296 + 4294967296"
      using b by (intro stop) simp
    finally show ?thesis using True by simp
  next
    case False
    have "uint32_loop n = uint32_loop (n + 4294967296)"
      using b by (subst uint32_loop.simps) simp
    also have "\<dots> = n + 4294967296"
      using False by (intro stop) simp
    finally show ?thesis using False by simp
  qed
qed

lemma uint32_eq: "uint32 n = n mod 4294967296 + 4294967296"
proof -
  let ?r = "js_rem n 4294967296"
  have b: "- 4294967296 < ?r" "?r < 4294967296"
    using js_rem_bounds [of 4294967296 n] by simp_all
  have "uint32_loop ?r = ?r mod 4294967296 + 4294967296"
    using b wrap_mod [of 4294967296 ?r] by (simp only: uint32_loop_eq)
  then show ?thesis
    using js_rem_mod [of 4294967296 n] by (simp add: uint32_def)
qed

lemma constantTimeCompare_loop_eq:
  "length a = length b \<Longrightarrow>
   constantTimeCompare_loop a b i = (if drop i a = drop i b then 0 else 1)"
proof (induction a b i rule: constantTimeCompare_loop.induct)
  case (1 a b i)
  show ?case
  proof (cases "i < length a")
    case True
    then have da: "drop i a = a ! i # drop (Suc i) a"
      by (simp add: Cons_nth_drop_Suc)
    from True "1.prems" have db: "drop i b = b ! i # drop (Suc i) b"
      by (simp add: Cons_nth_drop_Suc)
    show ?thesis
    proof (cases "a ! i = b ! i")
      case True
      with \<open>i < length a\<close> "1.IH" "1.prems" da db show ?thesis
        by (subst constantTimeCompare_loop.simps) simp
    next
      case False
      with \<open>i < length a\<close> da db show ?thesis
        by (subst constantTimeCompare_loop.simps) simp
    qed
  next
    case False
    with "1.prems" show ?thesis
      by (subst constantTimeCompare_loop.simps) simp
  qed
qed

section \<open>Arrays: reading what a loop wrote\<close>

lemma jget_jset: "jget (jset r i v) k = (if k = i then v else jget r k)"
  by (auto simp: jget_def jset_def nth_append)

lemma length_jset: "length (jset r i v) = max (length r) (Suc i)"
  by (auto simp: jset_def)

lemma jsarray_eqI:
  assumes "length r = length s" and "\<And>k. k < length r \<Longrightarrow> jget r k = jget s k"
  shows "r = s"
proof (rule nth_equalityI)
  show "length r = length s" by fact
next
  fix i assume "i < length r"
  with assms(2) [of i] assms(1) show "r ! i = s ! i"
    by (simp add: jget_def)
qed

lemma jset_jset: "jset (jset r i v) i w = jset r i w"
  by (rule jsarray_eqI) (simp_all add: length_jset jget_jset)

lemma fold_jset_pointwise:
  "jget (fold (\<lambda>i r. jset r (b + i) (F i (jget r (b + i)))) [0..<n] r) k =
     (if b \<le> k \<and> k < b + n then F (k - b) (jget r k) else jget r k)"
proof (induction n)
  case 0
  then show ?case by auto
next
  case (Suc n)
  then show ?case
    by (auto simp: jget_jset)
qed

lemma length_fold_jset:
  "b + n \<le> length r \<Longrightarrow>
   length (fold (\<lambda>i r. jset r (b + i) (F i (jget r (b + i)))) [0..<n] r) = length r"
  by (induction n) (auto simp: length_jset)

lemma toInt32_Some: "- 2147483648 \<le> n \<Longrightarrow> n < 2147483648 \<Longrightarrow> toInt32 (Some n) = n"
  by (simp add: toInt32_def signed_take_bit_int_eq_self)

lemma csubq_step_eq0: "polyConditionalSubQ_step i r = jset r (0 + i) (csubq (jget r (0 + i)))"
  by (simp add: polyConditionalSubQ_step_def Let_def jget_jset jset_jset csubq_def)

lemma jget_polyConditionalSubQ:
  "jget (polyConditionalSubQ r) k = (if k < 256 then csubq (jget r k) else jget r k)"
  unfolding polyConditionalSubQ_def csubq_step_eq0 paramsN_def
  by (subst fold_jset_pointwise) simp

lemma length_polyConditionalSubQ:
  "256 \<le> length r \<Longrightarrow> length (polyConditionalSubQ r) = length r"
  unfolding polyConditionalSubQ_def csubq_step_eq0 paramsN_def
  by (subst length_fold_jset) simp_all

lemma drop_bit_31_int32:
  fixes y :: int
  assumes "- 2147483648 \<le> y" "y < 2147483648"
  shows "drop_bit 31 y = (if y < 0 then - 1 else 0)"
proof -
  have "y div 2147483648 = (if y < 0 then - 1 else 0)"
    using assms by (auto simp: div_pos_pos_trivial div_eq_minus1 zdiv_eq_0_iff intro: int_div_neg_eq)
  then show ?thesis by (simp add: drop_bit_eq_div)
qed

lemma csubq_Some:
  assumes "- 2147483648 + 3329 \<le> x" "x < 2147483648 + 3329"
  shows "csubq (Some x) = Some (if x < 3329 then x else x - 3329)"
  using assms
  by (simp add: csubq_def paramsQ_def js_and_def js_shr_def toInt32_Some drop_bit_31_int32)

lemma byte_take_bit: "byte n = take_bit 8 n"
  by (simp add: byte_eq take_bit_eq_mod)

lemma uint16_take_bit: "uint16 n = take_bit 16 n"
  by (simp add: uint16_eq take_bit_eq_mod)

lemma int16_take_bit12: "int16 (x AND 4095) = take_bit 12 x"
proof -
  have m: "(4095 :: int) = mask 12" by (simp add: mask_eq_exp_minus_1)
  have e: "x AND 4095 = take_bit 12 x" unfolding m by (simp add: take_bit_eq_mask)
  have "0 \<le> take_bit 12 x" "take_bit 12 x < 4096"
    using take_bit_int_less_exp [of 12 x] by simp_all
  then have "- 32768 \<le> take_bit 12 x" "take_bit 12 x \<le> 32767"
    by linarith+
  then show ?thesis unfolding e by (rule int16_id)
qed

lemma unpack0_take_bit:
  "map_option int16
     (js_and (js_or (map_option uint16 (map_option byte (map_option uint16 (Some (take_bit 12 u0)))))
                    (js_shl (map_option uint16
                       (js_or (map_option byte (js_shr (map_option uint16 (Some (take_bit 12 u0))) 8))
                              (map_option byte (js_shl (map_option uint16 (Some (take_bit 12 u1))) 4)))) 8))
             (Some 0xFFF)) = Some (take_bit 12 u0)"
  apply (simp add: js_and_def js_or_def js_shl_def js_shr_def toInt32_def
         byte_take_bit uint16_take_bit int16_take_bit12)
  apply (rule bit_eqI)
  apply (auto simp: bit_simps min_def)
  done

lemma unpack1_take_bit:
  "map_option int16
     (js_and (js_or (js_shr (map_option uint16
                       (js_or (map_option byte (js_shr (map_option uint16 (Some (take_bit 12 u0))) 8))
                              (map_option byte (js_shl (map_option uint16 (Some (take_bit 12 u1))) 4)))) 4)
                    (js_shl (map_option uint16
                       (map_option byte (js_shr (map_option uint16 (Some (take_bit 12 u1))) 4))) 4))
             (Some 0xFFF)) = Some (take_bit 12 u1)"
  apply (simp add: js_and_def js_or_def js_shl_def js_shr_def toInt32_def
         byte_take_bit uint16_take_bit int16_take_bit12)
  apply (rule bit_eqI)
  apply (auto simp: bit_simps min_def)
  subgoal for n by (cases "4 \<le> n") simp_all
  done

lemma unpack0:
  fixes t0 t1 :: int
  assumes "0 \<le> t0" "t0 < 4096" "0 \<le> t1" "t1 < 4096"
  shows "map_option int16
     (js_and (js_or (map_option uint16 (map_option byte (map_option uint16 (Some t0))))
                    (js_shl (map_option uint16
                       (js_or (map_option byte (js_shr (map_option uint16 (Some t0)) 8))
                              (map_option byte (js_shl (map_option uint16 (Some t1)) 4)))) 8))
             (Some 0xFFF)) = Some t0"
proof -
  have t: "take_bit 12 t0 = t0" "take_bit 12 t1 = t1"
    using assms by (simp_all add: take_bit_int_eq_self)
  show ?thesis
    using unpack0_take_bit [of t0 t1] unfolding t .
qed

lemma unpack1:
  fixes t0 t1 :: int
  assumes "0 \<le> t0" "t0 < 4096" "0 \<le> t1" "t1 < 4096"
  shows "map_option int16
     (js_and (js_or (js_shr (map_option uint16
                       (js_or (map_option byte (js_shr (map_option uint16 (Some t0)) 8))
                              (map_option byte (js_shl (map_option uint16 (Some t1)) 4)))) 4)
                    (js_shl (map_option uint16
                       (map_option byte (js_shr (map_option uint16 (Some t1)) 4))) 4))
             (Some 0xFFF)) = Some t1"
proof -
  have t: "take_bit 12 t0 = t0" "take_bit 12 t1 = t1"
    using assms by (simp_all add: take_bit_int_eq_self)
  show ?thesis
    using unpack1_take_bit [of t0 t1] unfolding t .
qed

lemma fold_jset3:
  "jget (fold (\<lambda>i r. jset (jset (jset r (3 * i) (A i)) (3 * i + 1) (B i)) (3 * i + 2) (C i))
           [0..<n] r) k =
     (if k < 3 * n
      then (if k mod 3 = 0 then A (k div 3) else if k mod 3 = 1 then B (k div 3) else C (k div 3))
      else jget r k)"
proof (induction n)
  case 0
  then show ?case by simp
next
  case (Suc n)
  have c: "k = 3 * n \<or> k = 3 * n + 1 \<or> k = 3 * n + 2 \<or> k < 3 * n \<or> 3 * Suc n \<le> k"
    by arith
  have d: "(3 * n + 1) div 3 = n" "(3 * n + 2) div 3 = n"
    "(3 * n + 1) mod 3 = 1" "(3 * n + 2) mod 3 = 2"
    by presburger+
  from c show ?case
  proof (elim disjE)
    assume "k = 3 * n" with Suc show ?thesis by (simp add: jget_jset)
  next
    assume "k = 3 * n + 1" with Suc d show ?thesis by (simp add: jget_jset del: One_nat_def)
  next
    assume "k = 3 * n + 2" with Suc d show ?thesis by (simp add: jget_jset del: One_nat_def)
  next
    assume "k < 3 * n" with Suc show ?thesis by (simp add: jget_jset)
  next
    assume "3 * Suc n \<le> k" with Suc show ?thesis by (simp add: jget_jset)
  qed
qed

lemma length_fold_jset3:
  "3 * n \<le> length r \<Longrightarrow>
   length (fold (\<lambda>i r. jset (jset (jset r (3 * i) (A i)) (3 * i + 1) (B i)) (3 * i + 2) (C i))
           [0..<n] r) = length r"
  by (induction n) (auto simp: length_jset)

lemma fold_jset2:
  "jget (fold (\<lambda>i r. jset (jset r (2 * i) (A i)) (2 * i + 1) (B i)) [0..<n] r) k =
     (if k < 2 * n then (if even k then A (k div 2) else B (k div 2)) else jget r k)"
proof (induction n)
  case 0
  then show ?case by simp
next
  case (Suc n)
  have c: "k = 2 * n \<or> k = 2 * n + 1 \<or> k < 2 * n \<or> 2 * Suc n \<le> k"
    by arith
  from c Suc show ?case
    by (elim disjE) (simp_all add: jget_jset)
qed

lemma length_fold_jset2:
  "2 * n \<le> length r \<Longrightarrow>
   length (fold (\<lambda>i r. jset (jset r (2 * i) (A i)) (2 * i + 1) (B i)) [0..<n] r) = length r"
  by (induction n) (auto simp: length_jset)

lemma polyToBytes_step_eq:
  "polyToBytes_step a2 = (\<lambda>i r. jset (jset (jset r (3 * i)
        (map_option byte (map_option uint16 (jget a2 (2 * i)))))
      (3 * i + 1)
        (js_or (map_option byte (js_shr (map_option uint16 (jget a2 (2 * i))) 8))
               (map_option byte (js_shl (map_option uint16 (jget a2 (2 * i + 1))) 4))))
      (3 * i + 2)
        (map_option byte (js_shr (map_option uint16 (jget a2 (2 * i + 1))) 4)))"
  by (simp add: fun_eq_iff polyToBytes_step_def Let_def)

lemma polyFromBytes_step_eq:
  "polyFromBytes_step a = (\<lambda>i r. jset (jset r (2 * i)
        (map_option int16
                    (js_and (js_or (map_option uint16 (jget a (3 * i)))
                                   (js_shl (map_option uint16 (jget a (3 * i + 1))) 8))
                            (Some 0xFFF))))
      (2 * i + 1)
        (map_option int16
              (js_and (js_or (js_shr (map_option uint16 (jget a (3 * i + 1))) 4)
                             (js_shl (map_option uint16 (jget a (3 * i + 2))) 4))
                      (Some 0xFFF))))"
  by (simp add: fun_eq_iff polyFromBytes_step_def Let_def)

lemma jget_polyToBytes:
  "k < 384 \<Longrightarrow> jget (polyToBytes a) k =
     (let a2 = polyConditionalSubQ a;
          t0 = map_option uint16 (jget a2 (2 * (k div 3)));
          t1 = map_option uint16 (jget a2 (2 * (k div 3) + 1))
      in if k mod 3 = 0 then map_option byte t0
         else if k mod 3 = 1
         then js_or (map_option byte (js_shr t0 8)) (map_option byte (js_shl t1 4))
         else map_option byte (js_shr t1 4))"
  unfolding polyToBytes_def Let_def polyToBytes_step_eq fold_jset3 paramsN_def
  by simp

lemma jget_polyFromBytes:
  "jget (polyFromBytes a) k =
     (if k < 256
      then (if even k
            then map_option int16
                    (js_and (js_or (map_option uint16 (jget a (3 * (k div 2))))
                                   (js_shl (map_option uint16 (jget a (3 * (k div 2) + 1))) 8))
                            (Some 0xFFF))
            else map_option int16
              (js_and (js_or (js_shr (map_option uint16 (jget a (3 * (k div 2) + 1))) 4)
                             (js_shl (map_option uint16 (jget a (3 * (k div 2) + 2))) 4))
                      (Some 0xFFF)))
      else if k < 384 then None else None)"
  unfolding polyFromBytes_def Let_def polyFromBytes_step_eq fold_jset2 paramsN_def
        paramsPolyBytes_def
  by (simp add: jget_def)

lemma length_polyFromBytes: "length (polyFromBytes a) = 384"
  unfolding polyFromBytes_def Let_def polyFromBytes_step_eq paramsN_def paramsPolyBytes_def
  by (subst length_fold_jset2) simp_all

lemma length_polyToBytes: "length (polyToBytes a) = 384"
  unfolding polyToBytes_def Let_def polyToBytes_step_eq paramsN_def paramsPolyBytes_def
  by (subst length_fold_jset3) simp_all

lemma polyFromBytes_polyToBytes_coeff:
  assumes k: "k < 256"
    and r: "\<forall>i<256. \<exists>x. jget p i = Some x \<and> 0 \<le> x \<and> x < 3329"
  shows "jget (polyFromBytes (polyToBytes p)) k = jget p k"
proof -
  define i where "i = k div 2"
  have i: "2 * i < 256" "2 * i + 1 < 256" "3 * i < 384" "3 * i + 1 < 384" "3 * i + 2 < 384"
    using k unfolding i_def by presburger+
  obtain t0 where t0: "jget p (2 * i) = Some t0" "0 \<le> t0" "t0 < 3329"
    using r i(1) by blast
  obtain t1 where t1: "jget p (2 * i + 1) = Some t1" "0 \<le> t1" "t1 < 3329"
    using r i(2) by blast
  have c0: "jget (polyConditionalSubQ p) (2 * i) = Some t0"
    using t0 i(1) by (simp add: jget_polyConditionalSubQ csubq_Some)
  have c1: "jget (polyConditionalSubQ p) (2 * i + 1) = Some t1"
    using t1 i(2) by (simp add: jget_polyConditionalSubQ csubq_Some)
  have d: "(3 * i) div 3 = i" "(3 * i + 1) div 3 = i" "(3 * i + 2) div 3 = i"
    "(3 * i) mod 3 = 0" "(3 * i + 1) mod 3 = 1" "(3 * i + 2) mod 3 = 2"
    by presburger+
  have b0: "jget (polyToBytes p) (3 * i) = map_option byte (map_option uint16 (Some t0))"
    using i(3) by (simp only: jget_polyToBytes Let_def d c0 c1) simp
  have b1: "jget (polyToBytes p) (3 * i + 1) =
      js_or (map_option byte (js_shr (map_option uint16 (Some t0)) 8))
            (map_option byte (js_shl (map_option uint16 (Some t1)) 4))"
    using i(4) by (simp only: jget_polyToBytes Let_def d c0 c1) simp
  have b2: "jget (polyToBytes p) (3 * i + 2) =
      map_option byte (js_shr (map_option uint16 (Some t1)) 4)"
    using i(5) by (simp only: jget_polyToBytes Let_def d c0 c1) simp
  have t: "t0 < 4096" "t1 < 4096" using t0 t1 by simp_all
  have kd: "k div 2 = i" by (simp add: i_def)
  show ?thesis
  proof (cases "even k")
    case True
    then have ki: "k = 2 * i" by (auto simp: i_def)
    have "jget (polyFromBytes (polyToBytes p)) k =
        map_option int16
          (js_and (js_or (map_option uint16 (jget (polyToBytes p) (3 * i)))
                         (js_shl (map_option uint16 (jget (polyToBytes p) (3 * i + 1))) 8))
                  (Some 0xFFF))"
      unfolding jget_polyFromBytes kd using k True by simp
    also have "\<dots> = Some t0"
      unfolding b0 b1 by (rule unpack0 [OF t0(2) t(1) t1(2) t(2)])
    also have "\<dots> = jget p k"
      using t0(1) ki by simp
    finally show ?thesis .
  next
    case False
    then have ki: "k = 2 * i + 1" by (auto simp: i_def elim: oddE)
    have "jget (polyFromBytes (polyToBytes p)) k =
        map_option int16
          (js_and (js_or (js_shr (map_option uint16 (jget (polyToBytes p) (3 * i + 1))) 4)
                         (js_shl (map_option uint16 (jget (polyToBytes p) (3 * i + 2))) 4))
                  (Some 0xFFF))"
      unfolding jget_polyFromBytes kd using k False by simp
    also have "\<dots> = Some t1"
      unfolding b1 b2 by (rule unpack1 [OF t0(2) t(1) t1(2) t(2)])
    also have "\<dots> = jget p k"
      using t1(1) ki by simp
    finally show ?thesis .
  qed
qed

lemma fold_blocks8:
  assumes "\<And>i r k. jget (step i r) k = (if 8 * i \<le> k \<and> k < 8 * i + 8 then H i (k - 8 * i) else jget r k)"
  shows "jget (fold step [0..<n] r) k = (if k < 8 * n then H (k div 8) (k mod 8) else jget r k)"
proof (induction n)
  case 0
  then show ?case by simp
next
  case (Suc n)
  have s: "jget (fold step [0..<Suc n] r) k =
      (if 8 * n \<le> k \<and> k < 8 * n + 8 then H n (k - 8 * n) else jget (fold step [0..<n] r) k)"
    by (simp add: assms)
  show ?case
  proof (cases "8 * n \<le> k \<and> k < 8 * n + 8")
    case True
    then have d: "k div 8 = n"
      by (intro div_nat_eqI) simp_all
    have "k mod 8 = k - 8 * (k div 8)"
      by (simp add: minus_mult_div_eq_mod)
    with d have m: "k mod 8 = k - 8 * n" by simp
    from True have "k < 8 * Suc n" by simp
    with True show ?thesis
      unfolding s d m by simp
  next
    case False
    then have "k < 8 * Suc n \<longleftrightarrow> k < 8 * n" by auto
    with False show ?thesis
      unfolding s Suc by simp
  qed
qed

lemma length_fold_blocks8:
  assumes "\<And>i r. 8 * i + 8 \<le> length r \<Longrightarrow> length (step i r) = length r"
  shows "8 * n \<le> length r \<Longrightarrow> length (fold step [0..<n] r) = length r"
  by (induction n) (simp_all add: assms)

lemma fold_jset_const:
  "jget (fold (\<lambda>j r. jset r (b + j) (G j)) [0..<n] r) k =
     (if b \<le> k \<and> k < b + n then G (k - b) else jget r k)"
  by (rule fold_jset_pointwise [where F = "\<lambda>j _. G j"])

lemma length_fold_jset_const:
  "b + n \<le> length r \<Longrightarrow> length (fold (\<lambda>j r. jset r (b + j) (G j)) [0..<n] r) = length r"
  by (rule length_fold_jset [where F = "\<lambda>j _. G j"])

lemma polyFromData_inner_eq:
  "polyFromData_inner message i = (\<lambda>j r. jset r (8 * i + j)
     (js_and (js_neg (map_option int16 (js_and (js_shr (jget message i) j) (Some 1))))
         (Some (int16 ((paramsQ + 1) div 2)))))"
  by (simp add: fun_eq_iff polyFromData_inner_def Let_def)

lemma jget_polyFromData:
  "jget (polyFromData message) k =
     (if k < 256
      then js_and (js_neg (map_option int16 (js_and (js_shr (jget message (k div 8)) (k mod 8)) (Some 1))))
         (Some (int16 ((paramsQ + 1) div 2)))
      else if k < 384 then Some 0 else None)"
  unfolding polyFromData_def Let_def paramsN_def paramsPolyBytes_def
  apply (subst fold_blocks8 [where H = "\<lambda>i j. js_and (js_neg (map_option int16 (js_and (js_shr (jget message i) j) (Some 1))))
         (Some (int16 ((paramsQ + 1) div 2)))"])
  subgoal for i r k
    unfolding polyFromData_inner_eq fold_jset_const by simp
  apply (simp add: jget_def)
  done

lemma length_polyFromData: "length (polyFromData message) = 384"
  unfolding polyFromData_def Let_def paramsN_def paramsPolyBytes_def
  apply (subst length_fold_blocks8)
  subgoal for i r
    unfolding polyFromData_inner_eq by (subst length_fold_jset_const) simp_all
   apply simp_all
  done

lemma polyFromData_coeff:
  assumes "0 \<le> m" "m < 256"
  shows "js_and (js_neg (map_option int16 (js_and (js_shr (Some m) j) (Some 1))))
         (Some (int16 ((paramsQ + 1) div 2))) = Some (if bit m j then 1665 else 0)"
proof -
  have b: "drop_bit j m AND 1 = of_bool (bit m j)"
    by (simp add: and_one_eq bit_iff_odd_drop_bit mod_2_eq_odd)
  have "m div 2 ^ j \<le> m div 1"
    using assms by (intro zdiv_mono2) simp_all
  moreover have "0 \<le> m div 2 ^ j"
    using assms by (intro pos_imp_zdiv_nonneg_iff [THEN iffD2]) simp_all
  ultimately have "0 \<le> drop_bit j m" "drop_bit j m \<le> m"
    by (simp_all add: drop_bit_eq_div)
  then have d: "toInt32 (Some (drop_bit j m)) = drop_bit j m"
    using assms by (intro toInt32_Some) linarith+
  have s: "js_shr (Some m) j = Some (drop_bit j m)"
    using assms by (simp add: js_shr_def toInt32_Some)
  have a: "js_and (Some (drop_bit j m)) (Some 1) = Some (of_bool (bit m j))"
    by (simp add: js_and_def d toInt32_Some b)
  have i: "int16 (of_bool (bit m j)) = of_bool (bit m j)"
    by (simp add: int16_id)
  have "js_and (Some (- of_bool (bit m j))) (Some 1665) = Some (if bit m j then 1665 else 0)"
    by (simp add: js_and_def toInt32_Some)
  then show ?thesis
    unfolding s a by (simp add: i paramsQ_def int16_id)
qed

lemma half_quot: "\<lfloor>(of_int y + of_int 3329 / 2) / (of_int 3329 :: rat)\<rfloor> = (2 * y + 3329) div 6658"
proof -
  have "(of_int y + of_int 3329 / 2) / (of_int 3329 :: rat) = of_int (2 * y + 3329) / of_int 6658"
    by (simp add: field_simps)
  then show ?thesis
    by (simp only: floor_divide_of_int_eq)
qed

lemma polyToMsg_t_0: "polyToMsg_t (Some 0) = Some 0"
  unfolding polyToMsg_t_def js_toInt32_rat_def paramsQ_def uint16_eq
  by (simp add: js_shl_def toInt32_def half_quot [of 0, simplified])

lemma polyToMsg_t_1665: "polyToMsg_t (Some 1665) = Some 1"
  unfolding polyToMsg_t_def js_toInt32_rat_def paramsQ_def uint16_eq
  by (simp add: js_shl_def toInt32_def half_quot [of 3330, simplified])


lemma fold_acc_slot_same:
  "jget (fold (\<lambda>j r. jset r i (f j (jget r i))) [0..<n] r) i = fold f [0..<n] (jget r i)"
  by (induction n) (simp_all add: jget_jset)

lemma fold_acc_slot_other:
  "k \<noteq> i \<Longrightarrow> jget (fold (\<lambda>j r. jset r i (f j (jget r i))) [0..<n] r) k = jget r k"
  by (induction n) (simp_all add: jget_jset)

lemma fold_acc_slot:
  "jget (fold (\<lambda>j r. jset r i (f j (jget r i))) [0..<n] r) k =
     (if k = i then fold f [0..<n] (jget r i) else jget r k)"
  by (simp add: fold_acc_slot_same fold_acc_slot_other)

lemma length_fold_acc_slot:
  "i < length r \<Longrightarrow> length (fold (\<lambda>j r. jset r i (f j (jget r i))) [0..<n] r) = length r"
  by (induction n) (simp_all add: length_jset)

lemma fold_pointwise_abs:
  assumes "\<And>i r k. jget (step i r) k = (if k = i then F i (jget r i) else jget r k)"
  shows "jget (fold step [0..<n] r) k = (if k < n then F k (jget r k) else jget r k)"
  by (induction n) (auto simp: assms)

lemma length_fold_abs:
  assumes "\<And>i r. i < length r \<Longrightarrow> length (step i r) = length r"
  shows "n \<le> length r \<Longrightarrow> length (fold step [0..<n] r) = length r"
  by (induction n) (simp_all add: assms)

lemma polyToMsg_inner_eq:
  "polyToMsg_inner a2 i = (\<lambda>j r. jset r i
     ((\<lambda>j v. js_or v (map_option byte (js_shl (polyToMsg_t (jget a2 (8 * i + j))) j))) j (jget r i)))"
  by (simp add: fun_eq_iff polyToMsg_inner_def Let_def)

lemma jget_polyToMsg:
  "jget (polyToMsg a) k =
     (if k < 32
      then fold (\<lambda>j v. js_or v (map_option byte
                  (js_shl (polyToMsg_t (jget (polyConditionalSubQ a) (8 * k + j))) j))) [0..<8] (Some 0)
      else None)"
  unfolding polyToMsg_def Let_def paramsN_def
  apply (subst fold_pointwise_abs [where F = "\<lambda>i. fold (\<lambda>j v. js_or v (map_option byte
                  (js_shl (polyToMsg_t (jget (polyConditionalSubQ a) (8 * i + j))) j))) [0..<8]"])
  subgoal for i r k
    unfolding polyToMsg_inner_eq by (rule fold_acc_slot)
  apply (simp add: jget_def)
  done

lemma length_polyToMsg: "length (polyToMsg a) = 32"
  unfolding polyToMsg_def Let_def paramsN_def
  apply (subst length_fold_abs)
  subgoal for i r
    unfolding polyToMsg_inner_eq by (rule length_fold_acc_slot)
   apply simp_all
  done

lemma upt8: "[0..<8] = [0, 1, 2, 3, 4, 5, 6, 7]"
  by (simp add: upt_rec)

lemma toInt32_take_bit8: "toInt32 (Some (take_bit 8 x)) = take_bit 8 x"
proof -
  have "0 \<le> take_bit 8 x" "take_bit 8 x < 256"
    using take_bit_int_less_exp [of 8 x] by simp_all
  then show ?thesis
    by (intro toInt32_Some) linarith+
qed

lemma js_or_take_bit8:
  "js_or (Some (take_bit 8 x)) (Some (take_bit 8 y)) = Some (take_bit 8 (x OR y))"
  by (simp add: js_or_def toInt32_take_bit8 take_bit_or)

lemma shl_bit_byte:
  assumes "j < 8"
  shows "map_option byte (js_shl (Some (of_bool b)) j) = Some (take_bit 8 (push_bit j (of_bool b)))"
proof (cases b)
  case True
  have "(2 :: int) ^ j \<le> 2 ^ 7"
    using assms by (intro power_increasing) simp_all
  then have "(2 :: int) ^ j \<le> 128" by simp
  moreover have "(0 :: int) \<le> 2 ^ j" by simp
  ultimately have "toInt32 (Some (2 ^ j)) = 2 ^ j"
    by (intro toInt32_Some) linarith+
  then have "signed_take_bit 31 ((2 :: int) ^ j) = 2 ^ j"
    by (simp add: toInt32_def)
  moreover have "toInt32 (Some 1) = 1"
    by (intro toInt32_Some) simp_all
  ultimately show ?thesis
    using True by (simp add: js_shl_def byte_take_bit push_bit_eq_mult)
next
  case False
  have "toInt32 (Some 0) = 0"
    by (intro toInt32_Some) simp_all
  then show ?thesis
    using False by (simp add: js_shl_def byte_take_bit)
qed

lemma bit_times_2_int: "bit (x * 2) n \<longleftrightarrow> n \<noteq> 0 \<and> bit (x :: int) (n - 1)"
  using bit_double_iff [of x n] by (auto simp: mult.commute)

lemma or_chain8:
  "take_bit 8 ((((((((0 OR push_bit 0 (of_bool (bit (take_bit 8 u) 0)))
       OR push_bit 1 (of_bool (bit (take_bit 8 u) 1)))
       OR push_bit 2 (of_bool (bit (take_bit 8 u) 2)))
       OR push_bit 3 (of_bool (bit (take_bit 8 u) 3)))
       OR push_bit 4 (of_bool (bit (take_bit 8 u) 4)))
       OR push_bit 5 (of_bool (bit (take_bit 8 u) 5)))
       OR push_bit 6 (of_bool (bit (take_bit 8 u) 6)))
       OR push_bit 7 (of_bool (bit (take_bit 8 u) 7))) = take_bit 8 (u::int)"
  (is "?l = ?r")
proof (rule bit_eqI)
  fix n :: nat
  consider "n = 0" | "n = 1" | "n = 2" | "n = 3" | "n = 4" | "n = 5" | "n = 6" | "n = 7" | "8 \<le> n"
    by linarith
  then show "bit ?l n = bit ?r n"
    by cases (simp_all add: bit_simps bit_times_2_int split del: split_of_bool)
qed

lemma msg_byte_take_bit:
  "fold (\<lambda>j v. js_or v (map_option byte (js_shl (Some (of_bool (bit (take_bit 8 u) j))) j)))
     [0..<8] (Some 0) = Some (take_bit 8 (u :: int))"
proof -
  have z: "Some (0 :: int) = Some (take_bit 8 0)" by simp
  have "fold (\<lambda>j v. js_or v (map_option byte (js_shl (Some (of_bool (bit (take_bit 8 u) j))) j)))
     [0..<8] (Some 0) =
     Some (take_bit 8 ((((((((0 OR push_bit 0 (of_bool (bit (take_bit 8 u) 0)))
       OR push_bit 1 (of_bool (bit (take_bit 8 u) 1)))
       OR push_bit 2 (of_bool (bit (take_bit 8 u) 2)))
       OR push_bit 3 (of_bool (bit (take_bit 8 u) 3)))
       OR push_bit 4 (of_bool (bit (take_bit 8 u) 4)))
       OR push_bit 5 (of_bool (bit (take_bit 8 u) 5)))
       OR push_bit 6 (of_bool (bit (take_bit 8 u) 6)))
       OR push_bit 7 (of_bool (bit (take_bit 8 u) 7))))"
    unfolding upt8 fold_simps id_apply o_apply
    by (subst z) (simp only: shl_bit_byte js_or_take_bit8 numeral_less_iff Num.less_num_simps
        zero_less_numeral one_less_numeral_iff semiring_norm)
  also have "\<dots> = Some (take_bit 8 u)"
    by (simp only: or_chain8)
  finally show ?thesis .
qed


lemma polyToMsg_polyFromData_byte:
  assumes k: "k < 32" and m: "jget message k = Some m" "0 \<le> m" "m < 256"
  shows "jget (polyToMsg (polyFromData message)) k = Some m"
proof -
  have tb: "take_bit 8 m = m"
    using m by (simp add: take_bit_int_eq_self)
  have c: "polyToMsg_t (jget (polyConditionalSubQ (polyFromData message)) (8 * k + j))
      = Some (of_bool (bit m j))" if "j < 8" for j
  proof -
    have i: "8 * k + j < 256" "(8 * k + j) div 8 = k" "(8 * k + j) mod 8 = j"
      using k that by simp_all
    have "jget (polyFromData message) (8 * k + j) = Some (if bit m j then 1665 else 0)"
      unfolding jget_polyFromData i using i(1) m by (simp only: if_True polyFromData_coeff)
    then have "jget (polyConditionalSubQ (polyFromData message)) (8 * k + j)
        = Some (if bit m j then 1665 else 0)"
      using i(1) by (simp add: jget_polyConditionalSubQ csubq_Some)
    then show ?thesis
      by (simp add: polyToMsg_t_0 polyToMsg_t_1665)
  qed
  have "jget (polyToMsg (polyFromData message)) k =
      fold (\<lambda>j v. js_or v (map_option byte
          (js_shl (polyToMsg_t (jget (polyConditionalSubQ (polyFromData message)) (8 * k + j))) j)))
        [0..<8] (Some 0)"
    using k by (simp only: jget_polyToMsg if_True)
  also have "\<dots> = fold (\<lambda>j v. js_or v (map_option byte
          (js_shl (Some (of_bool (bit (take_bit 8 m) j))) j))) [0..<8] (Some 0)"
    unfolding tb by (rule fold_cong) (simp_all add: c)
  also have "\<dots> = Some (take_bit 8 m)"
    by (rule msg_byte_take_bit)
  finally show ?thesis
    by (simp only: tb)
qed

lemma polyToMsg_polyFromData_array:
  assumes "length m = 32" and "\<forall>x\<in>set m. 0 \<le> x \<and> x < 256"
  shows "polyToMsg (polyFromData (map Some m)) = map Some m"
proof (rule jsarray_eqI)
  show "length (polyToMsg (polyFromData (map Some m))) = length (map Some m)"
    using assms(1) by (simp add: length_polyToMsg)
next
  fix k assume "k < length (polyToMsg (polyFromData (map Some m)))"
  then have k: "k < 32" by (simp add: length_polyToMsg)
  then have g: "jget (map Some m) k = Some (m ! k)"
    using assms(1) by (simp add: jget_def)
  have "m ! k \<in> set m" using k assms(1) by simp
  with assms(2) have "0 \<le> m ! k" "m ! k < 256" by auto
  with k g show "jget (polyToMsg (polyFromData (map Some m))) k = jget (map Some m) k"
    by (simp only: polyToMsg_polyFromData_byte)
qed

section \<open>The comparison of decapsulation\<close>

text \<open>
  C3 on the code: \<open>constantTimeCompare\<close> returns 0 when the two byte arrays are
  equal and 1 otherwise, also when their lengths differ; it never returns \<open>0xFF\<close>.
  Its only caller, \<open>decrypt\<close>, uses \<open>fail & 0xFF\<close> as the mask of a branch-free
  selection between the bytes of \<open>K'\<close> and of \<open>z\<close>, which selects \<open>z\<close> only
  for the mask \<open>0xFF\<close>: with the verdict 1 it changes the lowest bit alone (lemma
  \<open>decrypt_kr_step_select\<close> below).
\<close>

theorem constantTimeCompare_zero_one:
  "constantTimeCompare a b = (if a = b then 0 else 1)"
proof (cases "length a = length b")
  case True
  then show ?thesis
    by (simp add: constantTimeCompare_def constantTimeCompare_loop_eq)
next
  case False
  then have "a \<noteq> b" by auto
  with False show ?thesis
    by (simp add: constantTimeCompare_def)
qed

text \<open>
  On the unequal byte arrays \<open>[0]\<close> and \<open>[1]\<close> the result is 1, not \<open>0xFF\<close>.
\<close>

lemma constantTimeCompare_not_0xFF:
  "[0 :: int] \<noteq> [1] \<and> constantTimeCompare [0] [1] = 1 \<and> constantTimeCompare [0] [1] \<noteq> 255"
  by (simp add: constantTimeCompare_def constantTimeCompare_loop.simps)

section \<open>The cast to unsigned 32 bits\<close>

text \<open>
  C8 at the input 0: the loop of \<open>uint32\<close> runs while the value is below \<open>2 ^ 32\<close>,
  so \<open>uint32 0\<close> is 4294967296, outside \<open>[0, 2 ^ 32)\<close>, where the modular cast of 0
  is 0.
\<close>

theorem uint32_zero: "uint32 0 = 4294967296 \<and> \<not> uint32 0 < 2 ^ 32"
  by (simp add: uint32_eq)

section \<open>Conditional subtraction of q\<close>

lemma csubq_range:
  assumes "0 \<le> x" "x < 2 * paramsQ"
  shows "\<exists>y. csubq (Some x) = Some y \<and> 0 \<le> y \<and> y < paramsQ"
  using assms by (simp add: csubq_Some paramsQ_def)

text \<open>
  C7 (as the code has it): when every coefficient of \<open>r\<close> is a number in
  \<open>[0, 2q)\<close>, every coefficient of \<open>polyConditionalSubQ r\<close> lies in \<open>[0, q)\<close>.
\<close>

theorem polyConditionalSubQ_range:
  assumes "\<forall>i<paramsN. \<exists>x. jget r i = Some x \<and> 0 \<le> x \<and> x < 2 * paramsQ"
  shows "\<forall>i<paramsN. \<exists>y. jget (polyConditionalSubQ r) i = Some y \<and> 0 \<le> y \<and> y < paramsQ"
proof (intro allI impI)
  fix i assume i: "i < paramsN"
  with assms obtain x where x: "jget r i = Some x" "0 \<le> x" "x < 2 * paramsQ"
    by blast
  have "jget (polyConditionalSubQ r) i = csubq (Some x)"
    using i x(1) by (simp add: jget_polyConditionalSubQ paramsN_def)
  with csubq_range [OF x(2,3)]
  show "\<exists>y. jget (polyConditionalSubQ r) i = Some y \<and> 0 \<le> y \<and> y < paramsQ"
    by simp
qed

theorem polyConditionalSubQ_range_witness:
  "\<exists>y. jget (polyConditionalSubQ (replicate 256 (Some 5000))) 3 = Some y \<and> 0 \<le> y \<and> y < paramsQ"
proof -
  have h: "\<forall>i<paramsN. \<exists>x. jget (replicate 256 (Some 5000)) i = Some x \<and> 0 \<le> x \<and> x < 2 * paramsQ"
    by (simp add: jget_def paramsN_def paramsQ_def)
  have "(3 :: nat) < paramsN"
    by (simp add: paramsN_def)
  with polyConditionalSubQ_range [OF h] show ?thesis
    by blast
qed

text \<open>
  C7 as stated fails: a coefficient \<open>-1\<close>, which lies in the centred range of the data
  model, stays \<open>-1\<close>, and a coefficient \<open>2q = 6658\<close> becomes \<open>q\<close>.
\<close>

theorem polyConditionalSubQ_out_of_range:
  "jget (polyConditionalSubQ (replicate 256 (Some (- 1)))) 0 = Some (- 1)
   \<and> jget (polyConditionalSubQ (replicate 256 (Some 6658))) 0 = Some 3329
   \<and> \<not> (0 \<le> (- 1 :: int)) \<and> \<not> (3329 < paramsQ)"
  unfolding jget_polyConditionalSubQ
  by (simp add: csubq_Some jget_def paramsQ_def)

section \<open>Round trip of the 12-bit packing\<close>

text \<open>
  C5: when the 256 coefficients of \<open>p\<close> are numbers in \<open>[0, q)\<close>, each of the 256
  coefficients of \<open>polyFromBytes (polyToBytes p)\<close> is the coefficient of \<open>p\<close>.
\<close>

theorem polyFromBytes_polyToBytes:
  assumes "\<forall>i<paramsN. \<exists>x. jget p i = Some x \<and> 0 \<le> x \<and> x < paramsQ"
  shows "\<forall>i<paramsN. jget (polyFromBytes (polyToBytes p)) i = jget p i"
  using assms polyFromBytes_polyToBytes_coeff [of _ p]
  by (simp add: paramsN_def paramsQ_def)

theorem polyFromBytes_polyToBytes_witness:
  "jget (polyFromBytes (polyToBytes (replicate 256 (Some 3328)))) 255 = Some 3328"
proof -
  have h: "\<forall>i<paramsN. \<exists>x. jget (replicate 256 (Some 3328)) i = Some x \<and> 0 \<le> x \<and> x < paramsQ"
    by (simp add: jget_def paramsN_def paramsQ_def)
  have "(255 :: nat) < paramsN"
    by (simp add: paramsN_def)
  with polyFromBytes_polyToBytes [OF h]
  have "jget (polyFromBytes (polyToBytes (replicate 256 (Some 3328)))) 255
      = jget (replicate 256 (Some 3328)) 255"
    by blast
  then show ?thesis
    by (simp add: jget_def)
qed

section \<open>Round trip of the message encoding\<close>

text \<open>
  C6: for every message \<open>m\<close> of 32 bytes, \<open>polyToMsg (polyFromData m)\<close> is \<open>m\<close>.
\<close>

theorem polyToMsg_polyFromData:
  assumes "length m = 32" and "\<forall>x\<in>set m. 0 \<le> x \<and> x < 256"
  shows "polyToMsg (polyFromData (map Some m)) = map Some m"
  using assms by (rule polyToMsg_polyFromData_array)

theorem polyToMsg_polyFromData_witness:
  "polyToMsg (polyFromData (map Some (replicate 32 165))) = map Some (replicate 32 165)"
proof -
  have h1: "length (replicate 32 (165 :: int)) = 32" by simp
  have h2: "\<forall>x\<in>set (replicate 32 (165 :: int)). 0 \<le> x \<and> x < 256" by simp
  from polyToMsg_polyFromData [OF h1 h2] show ?thesis .
qed

section \<open>Decapsulation\<close>

lemma intToByte_id: "n \<le> 255 \<Longrightarrow> intToByte n = n"
  by (subst intToByte.simps) simp

text \<open>
  With the verdict 1 of \<open>constantTimeCompare\<close> the mask \<open>fail & 0xFF\<close> is 1: the
  loop of \<open>decrypt\<close> moves only the lowest bit of a byte of \<open>z\<close> into the copy
  \<open>kr\<close>. A byte 0 of \<open>kr\<close> against a byte 255 of \<open>z\<close> becomes 1.
\<close>

lemma decrypt_kr_step_mask:
  "jget (decrypt_kr_step 1 (replicate 1600 0 @ replicate 32 255) 0 (map Some (replicate 64 0))) 0
     = Some 1"
  unfolding decrypt_kr_step_def Let_def jget_jset
  by (simp add: jget_def byte_at_def paramsSymBytes_def
      js_xor_def js_and_def toInt32_Some nth_append intToByte_id)

text \<open>
  The selection of the loop on one byte, \<open>0x55\<close> of \<open>K'\<close> and \<open>0xAA\<close> of \<open>z\<close>:
  the verdict 1 of \<open>constantTimeCompare\<close> gives \<open>0x54\<close>, neither of the two; the
  verdict \<open>0xFF\<close> would give the byte of \<open>z\<close>.
\<close>

lemma decrypt_kr_step_select:
  "jget (decrypt_kr_step 1 (replicate 1600 0 @ replicate 32 170) 0 (map Some (replicate 64 85))) 0
     = Some 84
   \<and> jget (decrypt_kr_step 255 (replicate 1600 0 @ replicate 32 170) 0 (map Some (replicate 64 85))) 0
     = Some 170"
  unfolding decrypt_kr_step_def Let_def jget_jset
  by (simp add: jget_def byte_at_def paramsSymBytes_def
      js_xor_def js_and_def toInt32_Some nth_append intToByte_id)

text \<open>
  C2 on the code: whatever the verdict of the comparison and whatever \<open>z\<close>, the
  shared secret of \<open>decrypt\<close> is the hash of the first 32 bytes \<open>K'\<close> of
  \<open>SHA3-512(m' || h)\<close> followed by the hash of the ciphertext. The bytes of \<open>z\<close>
  never reach the final hash.
\<close>

theorem decrypt_absorbs_kr1:
  "decrypt E paramsK cipherText privateKey =
     shake256 E
       (slice (sha3_512 E
                 (Buffer_from (indcpaDecrypt E paramsK cipherText
                                 (slice privateKey 0 (paramsIndcpaSecretKeyBytes paramsK)))
                  @ Buffer_from (slice privateKey
                       (paramsIndcpaSecretKeyBytes paramsK + paramsIndcpaPublicKeyBytes paramsK)
                       (paramsIndcpaSecretKeyBytes paramsK + paramsIndcpaPublicKeyBytes paramsK
                          + paramsSymBytes))))
          0 paramsSymBytes
        @ sha3_256 E (Buffer_from cipherText))"
  by (simp add: decrypt_def Let_def)

text \<open>
  An instance with the stand-in externals: the re-encryption differs from the
  ciphertext \<open>[1]\<close>, the private key ends in \<open>z = 255, ..., 255\<close>, and \<open>decrypt\<close>
  returns the secret of \<open>K' = 7, ..., 7\<close> where implicit rejection returns that of
  \<open>z\<close>.
\<close>

lemma decrypt_example:
  "constantTimeCompare [1] (indcpaEncrypt example_externals 2 pk m r) = 1
   \<and> decrypt example_externals 2 [1] (replicate 1600 0 @ replicate 32 255) = replicate 32 7
   \<and> decrypt_spec example_externals 2 [1] (replicate 1600 0 @ replicate 32 255)
       = replicate 32 255"
  by (simp add: decrypt_def decrypt_spec_def Let_def example_externals_def slice_def
      paramsSymBytes_def constantTimeCompare_def)

section \<open>Encapsulation followed by decapsulation\<close>

text \<open>
  The service layer alone: when the IND-CPA decryption returns the message that
  \<open>encrypt\<close> encrypted, and the private key is the one \<open>generateKyberKeys\<close> builds,
  \<open>decrypt\<close> returns the shared secret of \<open>encrypt\<close>. Whether the IND-CPA scheme
  decrypts its own ciphertexts is a property of \<open>indcpa.ts\<close>.
\<close>

lemma decrypt_encrypt_if_indcpa_correct:
  assumes sk: "length skcpa = paramsIndcpaSecretKeyBytes paramsK"
    and pk: "length pk = paramsIndcpaPublicKeyBytes paramsK"
    and h: "length (sha3_256 E (Buffer_from pk)) = paramsSymBytes"
    and hb: "Buffer_from (sha3_256 E (Buffer_from pk)) = sha3_256 E (Buffer_from pk)"
    and keys: "generateKyberKeys E (pk, skcpa) z = (publicKey, privateKey)"
    and enc: "encrypt E paramsK publicKey rnd = (cipherText, sharedSecret)"
    and pke: "Buffer_from (indcpaDecrypt E paramsK cipherText skcpa) = sha3_256 E (Buffer_from rnd)"
  shows "decrypt E paramsK cipherText privateKey = sharedSecret"
proof -
  from keys have p: "publicKey = pk"
    and s: "privateKey = skcpa @ pk @ sha3_256 E (Buffer_from pk) @ Buffer_from z"
    by (auto simp: generateKyberKeys_def Let_def)
  have s1: "slice privateKey 0 (paramsIndcpaSecretKeyBytes paramsK) = skcpa"
    using sk by (simp add: s slice_def)
  have s2: "slice privateKey
       (paramsIndcpaSecretKeyBytes paramsK + paramsIndcpaPublicKeyBytes paramsK)
       (paramsIndcpaSecretKeyBytes paramsK + paramsIndcpaPublicKeyBytes paramsK + paramsSymBytes)
      = sha3_256 E (Buffer_from pk)"
    using sk pk h by (simp add: s slice_def)
  from enc have ss: "sharedSecret = shake256 E
      (slice (sha3_512 E (sha3_256 E (Buffer_from rnd) @ sha3_256 E (Buffer_from pk))) 0 paramsSymBytes
       @ sha3_256 E (Buffer_from cipherText))"
    by (auto simp: encrypt_def Let_def p)
  have "decrypt E paramsK cipherText privateKey =
     shake256 E
       (slice (sha3_512 E
                 (Buffer_from (indcpaDecrypt E paramsK cipherText
                                 (slice privateKey 0 (paramsIndcpaSecretKeyBytes paramsK)))
                  @ Buffer_from (slice privateKey
                       (paramsIndcpaSecretKeyBytes paramsK + paramsIndcpaPublicKeyBytes paramsK)
                       (paramsIndcpaSecretKeyBytes paramsK + paramsIndcpaPublicKeyBytes paramsK
                          + paramsSymBytes))))
          0 paramsSymBytes
        @ sha3_256 E (Buffer_from cipherText))"
    by (simp add: decrypt_def Let_def)
  then show ?thesis
    unfolding s1 s2 pke hb ss .
qed

section \<open>In-place multiplication on the heap\<close>

lemma arrays_assign: "arrays (assign h a i v) p = (if p = a then jset (arrays h a) i v else arrays h p)"
  by (simp add: assign_def)

lemma fresh_assign: "fresh (assign h a i v) = fresh h"
  by (simp add: assign_def)

lemma polyBaseMulMont_step_other:
  "p \<noteq> a \<Longrightarrow> arrays (polyBaseMulMont_step a b i h) p = arrays h p"
  by (simp add: polyBaseMulMont_step_def Let_def arrays_assign)

lemma polyBaseMulMont_step_fresh: "fresh (polyBaseMulMont_step a b i h) = fresh h"
  by (simp add: polyBaseMulMont_step_def Let_def fresh_assign)

lemma polyBaseMulMont_step_self:
  "a \<noteq> b \<Longrightarrow> arrays (polyBaseMulMont_step a b i h) a = baseMul_step (arrays h b) i (arrays h a)"
  by (simp add: polyBaseMulMont_step_def baseMul_step_def Let_def arrays_assign)

lemma fold_polyBaseMulMont_step_other:
  "p \<noteq> a \<Longrightarrow> arrays (fold (polyBaseMulMont_step a b) [0..<n] h) p = arrays h p"
  by (induction n) (simp_all add: polyBaseMulMont_step_other)

lemma fold_polyBaseMulMont_step_fresh:
  "fresh (fold (polyBaseMulMont_step a b) [0..<n] h) = fresh h"
  by (induction n) (simp_all add: polyBaseMulMont_step_fresh)

lemma fold_polyBaseMulMont_step_self:
  "a \<noteq> b \<Longrightarrow> arrays (fold (polyBaseMulMont_step a b) [0..<n] h) a
     = fold (baseMul_step (arrays h b)) [0..<n] (arrays h a)"
  by (induction n)
     (simp_all add: polyBaseMulMont_step_self fold_polyBaseMulMont_step_other)

lemma polyBaseMulMont_ret: "snd (polyBaseMulMont h a b) = a"
  by (simp add: polyBaseMulMont_def)

lemma polyBaseMulMont_other:
  "p \<noteq> a \<Longrightarrow> arrays (fst (polyBaseMulMont h a b)) p = arrays h p"
  by (simp add: polyBaseMulMont_def fold_polyBaseMulMont_step_other)

lemma polyBaseMulMont_fresh: "fresh (fst (polyBaseMulMont h a b)) = fresh h"
  by (simp add: polyBaseMulMont_def fold_polyBaseMulMont_step_fresh)

lemma polyBaseMulMont_self:
  "a \<noteq> b \<Longrightarrow> arrays (fst (polyBaseMulMont h a b)) a = baseMul (arrays h a) (arrays h b)"
  by (simp add: polyBaseMulMont_def baseMul_def fold_polyBaseMulMont_step_self)

lemma polyAdd_ret: "snd (polyAdd h a b) = fresh h"
  by (simp add: polyAdd_def Let_def)

lemma polyAdd_fresh: "fresh (fst (polyAdd h a b)) = fresh h + 1"
  by (simp add: polyAdd_def Let_def)

lemma polyAdd_other:
  "p \<noteq> fresh h \<Longrightarrow> arrays (fst (polyAdd h a b)) p = arrays h p"
  by (simp add: polyAdd_def Let_def)

lemma polyReduce_other:
  "p \<noteq> r \<Longrightarrow> arrays (fst (polyReduce h r)) p = arrays h p"
  by (simp add: polyReduce_def)

lemma polyReduce_ret: "snd (polyReduce h r) = r"
  by (simp add: polyReduce_def)

lemma polyVectorPointWiseAccMont_loop_inv:
  assumes la: "length as = K" and lb: "length bs = K" and da: "distinct as"
    and dj: "set as \<inter> set bs = {}" and al: "\<forall>p\<in>set as \<union> set bs. p < F"
  shows "i \<le> K \<Longrightarrow> F \<le> fresh (fst hr) \<Longrightarrow>
     \<exists>h' r'. polyVectorPointWiseAccMont_loop K as bs i hr = Inr (h', r')
       \<and> (\<forall>j. i \<le> j \<and> j < K \<longrightarrow>
             arrays h' (as ! j) = baseMul (arrays (fst hr) (as ! j)) (arrays (fst hr) (bs ! j)))
       \<and> (\<forall>p. p < F \<and> p \<notin> set (drop i as) \<longrightarrow> arrays h' p = arrays (fst hr) p)
       \<and> (i < K \<longrightarrow> F \<le> r') \<and> (i = K \<longrightarrow> r' = snd hr)"
proof (induction "K - i" arbitrary: i hr)
  case 0
  then have "i = K" by simp
  then show ?case
    by (subst polyVectorPointWiseAccMont_loop.simps) (cases hr, auto)
next
  case (Suc n)
  then have i: "i < K" by simp
  define ai where "ai = as ! i"
  define bi where "bi = bs ! i"
  define h1 where "h1 = fst (polyBaseMulMont (fst hr) ai bi)"
  define hr2 where "hr2 = polyAdd h1 (snd hr) ai"
  have dr: "drop i as = ai # drop (Suc i) as"
    using i la by (simp add: ai_def Cons_nth_drop_Suc)
  have "distinct (drop i as)" using da by simp
  then have ai_notin: "ai \<notin> set (drop (Suc i) as)"
    unfolding dr by simp
  have ai_as: "ai \<in> set as" and bi_bs: "bi \<in> set bs"
    using i la lb by (simp_all add: ai_def bi_def)
  then have ab: "ai \<noteq> bi" using dj by auto
  have aiF: "ai < F" using al ai_as by simp
  have f1: "fresh h1 = fresh (fst hr)"
    by (simp add: h1_def polyBaseMulMont_fresh)
  have f2: "fresh (fst hr2) = fresh (fst hr) + 1" and r2: "snd hr2 = fresh (fst hr)"
    by (simp_all add: hr2_def polyAdd_fresh polyAdd_ret f1)
  have a2: "arrays (fst hr2) p = arrays h1 p" if "p < F" for p
    using that Suc.prems(2) f1 by (simp add: hr2_def polyAdd_other)
  have a1: "arrays h1 p = arrays (fst hr) p" if "p \<noteq> ai" for p
    using that by (simp add: h1_def polyBaseMulMont_other)
  have a1s: "arrays h1 ai = baseMul (arrays (fst hr) ai) (arrays (fst hr) bi)"
    using ab by (simp add: h1_def polyBaseMulMont_self)
  have step: "polyVectorPointWiseAccMont_loop K as bs i hr
      = polyVectorPointWiseAccMont_loop K as bs (i + 1) hr2"
    using i la lb
    by (subst polyVectorPointWiseAccMont_loop.simps)
       (simp add: vec_at_def Let_def hr2_def h1_def ai_def bi_def polyBaseMulMont_ret)
  have "n = K - (i + 1)" "i + 1 \<le> K" "F \<le> fresh (fst hr2)"
    using Suc.hyps(2) i Suc.prems(2) f2 by simp_all
  from Suc.hyps(1) [OF this]
  obtain h' r' where
    l: "polyVectorPointWiseAccMont_loop K as bs (i + 1) hr2 = Inr (h', r')"
    and pj: "\<forall>j. i + 1 \<le> j \<and> j < K \<longrightarrow>
        arrays h' (as ! j) = baseMul (arrays (fst hr2) (as ! j)) (arrays (fst hr2) (bs ! j))"
    and fr: "\<forall>p. p < F \<and> p \<notin> set (drop (i + 1) as) \<longrightarrow> arrays h' p = arrays (fst hr2) p"
    and rF: "i + 1 < K \<longrightarrow> F \<le> r'" and rK: "i + 1 = K \<longrightarrow> r' = snd hr2"
    by blast
  have c1: "arrays h' (as ! j) = baseMul (arrays (fst hr) (as ! j)) (arrays (fst hr) (bs ! j))"
    if j: "i \<le> j" "j < K" for j
  proof (cases "j = i")
    case True
    have "arrays h' ai = arrays (fst hr2) ai"
      using fr aiF ai_notin by simp
    also have "\<dots> = arrays h1 ai" using aiF by (rule a2)
    finally show ?thesis
      using True a1s by (simp add: ai_def bi_def)
  next
    case False
    with j have j': "i + 1 \<le> j" by simp
    have "as ! j = drop (Suc i) as ! (j - Suc i)"
      using j' j la by simp
    moreover have "j - Suc i < length (drop (Suc i) as)"
      using j' j la by simp
    ultimately have "as ! j \<in> set (drop (Suc i) as)"
      by (metis nth_mem)
    with ai_notin have n1: "as ! j \<noteq> ai" by auto
    have "bs ! j \<in> set bs" using j lb by simp
    with ai_as dj have n2: "bs ! j \<noteq> ai" by auto
    have "as ! j \<in> set as" using j la by simp
    with al have F1: "as ! j < F" by simp
    from \<open>bs ! j \<in> set bs\<close> al have F2: "bs ! j < F" by simp
    show ?thesis
      using pj j' j(2) by (simp add: a2 [OF F1] a2 [OF F2] a1 [OF n1] a1 [OF n2])
  qed
  have c2: "arrays h' p = arrays (fst hr) p" if p: "p < F" "p \<notin> set (drop i as)" for p
  proof -
    from p(2) have "p \<noteq> ai" "p \<notin> set (drop (i + 1) as)"
      unfolding dr by simp_all
    then show ?thesis
      using fr p(1) by (simp add: a2 a1)
  qed
  have c3: "F \<le> r'"
    using rF rK r2 Suc.prems(2) i by (cases "i + 1 < K") simp_all
  show ?case
    unfolding step l using c1 c2 c3 i by simp
qed

lemma polyVectorPointWiseAccMont_overwrites:
  assumes K: "2 \<le> K" and la: "length as = K" and lb: "length bs = K" and da: "distinct as"
    and dj: "set as \<inter> set bs = {}" and al: "\<forall>p\<in>set as \<union> set bs. p < fresh h"
  shows "\<exists>h' r. polyVectorPointWiseAccMont K h as bs = Inr (h', r)
       \<and> (\<forall>i<K. arrays h' (as ! i) = baseMul (arrays h (as ! i)) (arrays h (bs ! i)))
       \<and> (\<forall>p\<in>set bs. arrays h' p = arrays h p)
       \<and> fresh h \<le> r"
proof -
  define a0 where "a0 = as ! 0"
  define b0 where "b0 = bs ! 0"
  define hr where "hr = polyBaseMulMont h a0 b0"
  have a0_as: "a0 \<in> set as" and b0_bs: "b0 \<in> set bs"
    using K la lb by (simp_all add: a0_def b0_def)
  then have ab: "a0 \<noteq> b0" using dj by auto
  have d0: "drop 0 as = as" by simp
  have dr: "as = a0 # drop 1 as"
    using K la Cons_nth_drop_Suc [of 0 as] by (simp add: a0_def)
  with da have a0_notin: "a0 \<notin> set (drop 1 as)"
    by (metis distinct.simps(2))
  have fr: "fresh h \<le> fresh (fst hr)"
    by (simp add: hr_def polyBaseMulMont_fresh)
  have "1 \<le> K" using K by simp
  from polyVectorPointWiseAccMont_loop_inv [OF la lb da dj al this fr]
  obtain h1 r1 where
    l: "polyVectorPointWiseAccMont_loop K as bs 1 hr = Inr (h1, r1)"
    and pj: "\<forall>j. 1 \<le> j \<and> j < K \<longrightarrow>
        arrays h1 (as ! j) = baseMul (arrays (fst hr) (as ! j)) (arrays (fst hr) (bs ! j))"
    and un: "\<forall>p. p < fresh h \<and> p \<notin> set (drop 1 as) \<longrightarrow> arrays h1 p = arrays (fst hr) p"
    and rF: "1 < K \<longrightarrow> fresh h \<le> r1"
    by blast
  from rF K have r1: "fresh h \<le> r1" by simp
  define h2 where "h2 = fst (polyReduce h1 r1)"
  have res: "polyVectorPointWiseAccMont K h as bs = Inr (h2, r1)"
    using K la lb l
    by (simp add: polyVectorPointWiseAccMont_def vec_at_def a0_def b0_def hr_def h2_def
        polyReduce_ret prod_eq_iff)
  have keep: "arrays h2 p = arrays h1 p" if "p < fresh h" for p
    using that r1 by (simp add: h2_def polyReduce_other)
  have hro: "arrays (fst hr) p = arrays h p" if "p \<noteq> a0" for p
    using that by (simp add: hr_def polyBaseMulMont_other)
  have c1: "arrays h2 (as ! i) = baseMul (arrays h (as ! i)) (arrays h (bs ! i))" if i: "i < K" for i
  proof (cases "i = 0")
    case True
    have "a0 < fresh h" using al a0_as by simp
    then have "arrays h2 a0 = arrays (fst hr) a0"
      using un a0_notin by (simp add: keep)
    also have "\<dots> = baseMul (arrays h a0) (arrays h b0)"
      using ab by (simp add: hr_def polyBaseMulMont_self)
    finally show ?thesis
      using True by (simp add: a0_def b0_def)
  next
    case False
    then have i1: "1 \<le> i" by simp
    have "as ! i \<in> set as" "bs ! i \<in> set bs" using i la lb by simp_all
    then have F: "as ! i < fresh h" and nb: "bs ! i \<noteq> a0"
      using al dj a0_as by auto
    have "as ! i \<noteq> as ! 0"
      using da i la False by (simp add: nth_eq_iff_index_eq)
    then have na: "as ! i \<noteq> a0" by (simp add: a0_def)
    show ?thesis
      using pj i1 i by (simp add: keep [OF F] hro [OF na] hro [OF nb])
  qed
  have c2: "arrays h2 p = arrays h p" if p: "p \<in> set bs" for p
  proof -
    from p al have F: "p < fresh h" by simp
    from p dj have "p \<notin> set as" by auto
    then have "p \<notin> set (drop 1 as)" "p \<noteq> a0"
      using a0_as by (auto dest: in_set_dropD)
    then show ?thesis
      using un F by (simp add: keep hro)
  qed
  show ?thesis
    unfolding res using c1 c2 r1 by simp
qed

lemma baseMul_step_low:
  "0 < i \<Longrightarrow> k < 4 \<Longrightarrow> jget (baseMul_step b i a) k = jget a k"
  by (simp add: baseMul_step_def Let_def jget_jset)

lemma fold_baseMul_step_low:
  "k < 4 \<Longrightarrow> jget (fold (baseMul_step b) [0..<Suc n] a) k = jget (baseMul_step b 0 a) k"
proof (induction n)
  case 0
  then show ?case by simp
next
  case (Suc n)
  have "jget (fold (baseMul_step b) [0..<Suc (Suc n)] a) k
      = jget (baseMul_step b (Suc n) (fold (baseMul_step b) [0..<Suc n] a)) k"
    by simp
  also have "\<dots> = jget (fold (baseMul_step b) [0..<Suc n] a) k"
    using Suc.prems by (intro baseMul_step_low) simp_all
  finally show ?case
    using Suc by simp
qed

lemma montgomeryReduce_1: "montgomeryReduce 1 = 169"
  by (simp add: montgomeryReduce_def paramsQinv_def paramsQ_def Let_def)

lemma montgomeryReduce_376194: "montgomeryReduce 376194 = - 456"
  by (simp add: montgomeryReduce_def paramsQinv_def paramsQ_def Let_def)

lemma baseMul_ones_0:
  "jget (baseMul (replicate 256 (Some 1)) (replicate 256 (Some 1))) 0 = Some (- 287)"
proof -
  have n: "(256 :: nat) div 4 = Suc 63" by simp
  have "jget (baseMul (replicate 256 (Some 1)) (replicate 256 (Some 1))) 0
      = jget (baseMul_step (replicate 256 (Some 1)) 0 (replicate 256 (Some 1))) 0"
    unfolding baseMul_def paramsN_def n
    by (rule fold_baseMul_step_low) simp
  also have "\<dots> = Some (- 287)"
    unfolding baseMul_step_def Let_def jget_jset
    by (simp add: jget_def nttBaseMuliplier_def table_at_def nttZetas_def
        montgomeryReduce_1 montgomeryReduce_376194)
  finally show ?thesis .
qed

text \<open>
  C10: \<open>polyBaseMulMont h a b\<close> returns the reference \<open>a\<close> it was given and leaves
  every array other than \<open>a\<close> as it was, so \<open>b\<close> when it is another array; then
  \<open>a\<close> holds the product. For \<open>K \<ge> 2\<close> and vectors of \<open>K\<close> distinct allocated
  arrays, \<open>polyVectorPointWiseAccMont\<close> returns a new array and leaves in every
  \<open>a[i]\<close> the product of \<open>a[i]\<close> and \<open>b[i]\<close>, while the arrays of \<open>b\<close> keep
  their contents.
\<close>

theorem polyBaseMulMont_in_place:
  "snd (polyBaseMulMont h a b) = a
   \<and> (\<forall>p. p \<noteq> a \<longrightarrow> arrays (fst (polyBaseMulMont h a b)) p = arrays h p)
   \<and> (a \<noteq> b \<longrightarrow> arrays (fst (polyBaseMulMont h a b)) a = baseMul (arrays h a) (arrays h b))
   \<and> (2 \<le> K \<and> length as = K \<and> length bs = K \<and> distinct as \<and> set as \<inter> set bs = {}
        \<and> (\<forall>p\<in>set as \<union> set bs. p < fresh h)
      \<longrightarrow> (\<exists>h' r. polyVectorPointWiseAccMont K h as bs = Inr (h', r)
             \<and> (\<forall>i<K. arrays h' (as ! i) = baseMul (arrays h (as ! i)) (arrays h (bs ! i)))
             \<and> (\<forall>p\<in>set bs. arrays h' p = arrays h p)
             \<and> fresh h \<le> r))"
  using polyVectorPointWiseAccMont_overwrites [of K as bs h]
  by (simp add: polyBaseMulMont_ret polyBaseMulMont_other polyBaseMulMont_self)

text \<open>
  An instance: four arrays of 256 ones at the references 0 to 3, the vectors
  \<open>[0, 1]\<close> and \<open>[2, 3]\<close>. After the call the array at reference 1 is the product,
  whose coefficient 0 is \<open>-287\<close> and no longer 1.
\<close>

theorem polyBaseMulMont_in_place_witness:
  "snd (polyBaseMulMont \<lparr>arrays = (\<lambda>p. replicate 256 (Some 1)), fresh = 4\<rparr> 0 2) = 0
   \<and> arrays (fst (polyBaseMulMont \<lparr>arrays = (\<lambda>p. replicate 256 (Some 1)), fresh = 4\<rparr> 0 2)) 2
       = replicate 256 (Some 1)
   \<and> (\<exists>h' r. polyVectorPointWiseAccMont 2 \<lparr>arrays = (\<lambda>p. replicate 256 (Some 1)), fresh = 4\<rparr>
                 [0, 1] [2, 3] = Inr (h', r)
         \<and> jget (arrays h' 1) 0 = Some (- 287)
         \<and> arrays h' 3 = replicate 256 (Some 1)
         \<and> 4 \<le> r)"
proof -
  define h0 :: heap where "h0 = \<lparr>arrays = (\<lambda>p. replicate 256 (Some 1)), fresh = 4\<rparr>"
  have hyp: "2 \<le> (2 :: nat) \<and> length [0 :: nat, 1] = 2 \<and> length [2 :: nat, 3] = 2
      \<and> distinct [0 :: nat, 1] \<and> set [0 :: nat, 1] \<inter> set [2, 3] = {}
      \<and> (\<forall>p\<in>set [0 :: nat, 1] \<union> set [2, 3]. p < fresh h0)"
    by (simp add: h0_def)
  have t: "snd (polyBaseMulMont h0 0 2) = 0"
    "\<forall>p. p \<noteq> 0 \<longrightarrow> arrays (fst (polyBaseMulMont h0 0 2)) p = arrays h0 p"
    "2 \<le> (2 :: nat) \<and> length [0 :: nat, 1] = 2 \<and> length [2 :: nat, 3] = 2
      \<and> distinct [0 :: nat, 1] \<and> set [0 :: nat, 1] \<inter> set [2, 3] = {}
      \<and> (\<forall>p\<in>set [0 :: nat, 1] \<union> set [2, 3]. p < fresh h0)
     \<longrightarrow> (\<exists>h' r. polyVectorPointWiseAccMont 2 h0 [0, 1] [2, 3] = Inr (h', r)
             \<and> (\<forall>i<2. arrays h' ([0, 1] ! i) = baseMul (arrays h0 ([0, 1] ! i)) (arrays h0 ([2, 3] ! i)))
             \<and> (\<forall>p\<in>set [2, 3]. arrays h' p = arrays h0 p)
             \<and> fresh h0 \<le> r)"
    using polyBaseMulMont_in_place [of h0 0 2 2 "[0, 1]" "[2, 3]"] by blast+
  from t(3) hyp obtain h' r where
    r: "polyVectorPointWiseAccMont 2 h0 [0, 1] [2, 3] = Inr (h', r)"
    and p: "\<forall>i<2. arrays h' ([0, 1] ! i) = baseMul (arrays h0 ([0, 1] ! i)) (arrays h0 ([2, 3] ! i))"
    and b: "\<forall>p\<in>set [2, 3]. arrays h' p = arrays h0 p"
    and f: "fresh h0 \<le> r"
    by blast
  have "(1 :: nat) < 2" by simp
  with p have "arrays h' ([0, 1] ! 1) = baseMul (arrays h0 ([0, 1] ! 1)) (arrays h0 ([2, 3] ! 1))"
    by blast
  then have "arrays h' 1 = baseMul (replicate 256 (Some 1)) (replicate 256 (Some 1))"
    by (simp add: h0_def)
  then have c1: "jget (arrays h' 1) 0 = Some (- 287)"
    by (simp only: baseMul_ones_0)
  from b have c2: "arrays h' 3 = replicate 256 (Some 1)"
    by (simp add: h0_def)
  from f have c3: "4 \<le> r"
    by (simp add: h0_def)
  from t(2) have c0: "arrays (fst (polyBaseMulMont h0 0 2)) 2 = replicate 256 (Some 1)"
    by (simp add: h0_def)
  from t(1) c0 r c1 c2 c3 show ?thesis
    unfolding h0_def by blast
qed

section \<open>The loops of the transform\<close>

lemma jget_ntt_butterfly:
  "0 < l \<Longrightarrow> jget (ntt_butterfly zeta l j r) i =
     (if i = j then ntt_lo zeta (jget r j) (jget r (j + l))
      else if i = j + l then ntt_hi zeta (jget r j) (jget r (j + l))
      else jget r i)"
  by (simp add: ntt_butterfly_def Let_def jget_jset ntt_lo_def ntt_hi_def)

lemma length_ntt_butterfly:
  "j + l < length r \<Longrightarrow> length (ntt_butterfly zeta l j r) = length r"
  by (simp add: ntt_butterfly_def Let_def length_jset)

lemma ntt_inner_snd:
  "j \<le> start + l \<Longrightarrow> snd (ntt_inner zeta l start r j) = start + l"
proof (induction zeta l start r j rule: ntt_inner.induct)
  case (1 zeta l start r j)
  show ?case
  proof (cases "j < start + l")
    case True
    with 1 show ?thesis by (subst ntt_inner.simps) simp
  next
    case False
    with 1 show ?thesis by (subst ntt_inner.simps) simp
  qed
qed

lemma ntt_inner_length:
  "start + 2 * l \<le> length r \<Longrightarrow> start \<le> j \<Longrightarrow> length (fst (ntt_inner zeta l start r j)) = length r"
proof (induction zeta l start r j rule: ntt_inner.induct)
  case (1 zeta l start r j)
  show ?case
  proof (cases "j < start + l")
    case True
    then have "length (ntt_butterfly zeta l j r) = length r"
      using 1(2) by (intro length_ntt_butterfly) simp
    with True 1 show ?thesis by (subst ntt_inner.simps) simp
  next
    case False
    with 1 show ?thesis by (subst ntt_inner.simps) simp
  qed
qed

lemma ntt_inner_get:
  "0 < l \<Longrightarrow> start \<le> j \<Longrightarrow>
   jget (fst (ntt_inner zeta l start r j)) i =
     (if j \<le> i \<and> i < start + l then ntt_lo zeta (jget r i) (jget r (i + l))
      else if j + l \<le> i \<and> i < start + 2 * l then ntt_hi zeta (jget r (i - l)) (jget r i)
      else jget r i)"
proof (induction zeta l start r j arbitrary: i rule: ntt_inner.induct)
  case (1 zeta l start r j)
  show ?case
  proof (cases "j < start + l")
    case True
    have e: "ntt_inner zeta l start r j = ntt_inner zeta l start (ntt_butterfly zeta l j r) (j + 1)"
      using True by (subst ntt_inner.simps) simp
    have ih: "jget (fst (ntt_inner zeta l start (ntt_butterfly zeta l j r) (j + 1))) i =
     (if j + 1 \<le> i \<and> i < start + l
      then ntt_lo zeta (jget (ntt_butterfly zeta l j r) i) (jget (ntt_butterfly zeta l j r) (i + l))
      else if j + 1 + l \<le> i \<and> i < start + 2 * l
      then ntt_hi zeta (jget (ntt_butterfly zeta l j r) (i - l)) (jget (ntt_butterfly zeta l j r) i)
      else jget (ntt_butterfly zeta l j r) i)"
      using 1 True by simp
    consider "i = j" | "i = j + l" | "j + 1 \<le> i \<and> i < start + l"
      | "j + 1 + l \<le> i \<and> i < start + 2 * l"
      | "\<not> (j \<le> i \<and> i < start + l) \<and> \<not> (j + l \<le> i \<and> i < start + 2 * l)"
      by linarith
    then show ?thesis
    proof cases
      case 1
      then show ?thesis
        unfolding e ih using True \<open>0 < l\<close> by (simp add: jget_ntt_butterfly)
    next
      case 2
      then show ?thesis
        unfolding e ih using True \<open>0 < l\<close> \<open>start \<le> j\<close> by (simp add: jget_ntt_butterfly)
    next
      case 3
      then show ?thesis
        unfolding e ih using True \<open>0 < l\<close> \<open>start \<le> j\<close> by (simp add: jget_ntt_butterfly)
    next
      case 4
      with \<open>start \<le> j\<close> have "i - l \<noteq> j" "i - l \<noteq> j + l" "i \<noteq> j" "i \<noteq> j + l"
        by arith+
      with 4 show ?thesis
        unfolding e ih using True \<open>0 < l\<close> \<open>start \<le> j\<close> by (simp add: jget_ntt_butterfly)
    next
      case 5
      then show ?thesis
        unfolding e ih using True \<open>0 < l\<close> \<open>start \<le> j\<close> by (auto simp: jget_ntt_butterfly)
    qed
  next
    case False
    then show ?thesis
      by (subst ntt_inner.simps) auto
  qed
qed

lemma ntt_middle_done: "ntt_middle l (r, j, k) 256 = (r, j, k)"
  by (subst ntt_middle.simps) simp

lemma ntt_middle_step:
  assumes "0 < l" "start < 256"
  shows "ntt_middle l (r, j, k) start =
     ntt_middle l (fst (ntt_inner (table_at nttZetas k) l start r start), start + l, k + 1)
       (start + 2 * l)"
proof -
  have "snd (ntt_inner (table_at nttZetas k) l start r start) = start + l"
    by (rule ntt_inner_snd) simp
  then show ?thesis
    using assms by (subst ntt_middle.simps) (simp add: Let_def mult_2 add.assoc)
qed

lemma ntt_middle_counters:
  "0 < l \<Longrightarrow> start + n * (2 * l) = 256 \<Longrightarrow>
   snd (ntt_middle l (r, j, k) start) = (if n = 0 then j else 256 - l, k + n)"
proof (induction n arbitrary: start r j k)
  case 0
  then show ?case by (simp add: ntt_middle_done)
next
  case (Suc n)
  then have s: "start < 256" "start + 2 * l + n * (2 * l) = 256" by simp_all
  have "start + l = 256 - l" if "n = 0"
    using that s(2) by simp
  then show ?case
    unfolding ntt_middle_step [OF Suc.prems(1) s(1)] Suc.IH [OF Suc.prems(1) s(2)]
    by simp
qed

lemma ntt_middle_outside:
  "0 < l \<Longrightarrow> start + n * (2 * l) = 256 \<Longrightarrow> i < start \<or> 256 \<le> i \<Longrightarrow>
   jget (fst (ntt_middle l (r, j, k) start)) i = jget r i"
proof (induction n arbitrary: start r j k)
  case 0
  then show ?case by (simp add: ntt_middle_done)
next
  case (Suc n)
  then have s: "start < 256" "start + 2 * l + n * (2 * l) = 256" by simp_all
  from Suc.prems(3) s(2) have o: "i < start + 2 * l \<or> 256 \<le> i" "i < start \<or> start + 2 * l \<le> i"
    by auto
  have "jget (fst (ntt_middle l (r, j, k) start)) i
      = jget (fst (ntt_inner (table_at nttZetas k) l start r start)) i"
    unfolding ntt_middle_step [OF Suc.prems(1) s(1)]
    by (rule Suc.IH [OF Suc.prems(1) s(2) o(1)])
  also have "\<dots> = jget r i"
    using o(2) Suc.prems(1) by (subst ntt_inner_get) auto
  finally show ?case .
qed

lemma ntt_middle_pair:
  assumes l: "0 < l"
  shows "start + n * (2 * l) = 256 \<Longrightarrow> g < n \<Longrightarrow> d < l \<Longrightarrow>
   jget (fst (ntt_middle l (r, j, k) start)) (start + g * (2 * l) + d)
     = ntt_lo (table_at nttZetas (k + g))
         (jget r (start + g * (2 * l) + d)) (jget r (start + g * (2 * l) + d + l))
   \<and> jget (fst (ntt_middle l (r, j, k) start)) (start + g * (2 * l) + d + l)
     = ntt_hi (table_at nttZetas (k + g))
         (jget r (start + g * (2 * l) + d)) (jget r (start + g * (2 * l) + d + l))"
proof (induction n arbitrary: start r j k g)
  case 0
  then show ?case by simp
next
  case (Suc n)
  then have s: "start < 256" "start + 2 * l + n * (2 * l) = 256" by simp_all
  let ?r' = "fst (ntt_inner (table_at nttZetas k) l start r start)"
  show ?case
  proof (cases g)
    case 0
    have "jget (fst (ntt_middle l (r, j, k) start)) (start + d) = jget ?r' (start + d)"
      unfolding ntt_middle_step [OF l s(1)]
      using Suc.prems(3) by (intro ntt_middle_outside [OF l s(2)]) simp
    moreover have "jget (fst (ntt_middle l (r, j, k) start)) (start + d + l) = jget ?r' (start + d + l)"
      unfolding ntt_middle_step [OF l s(1)]
      using Suc.prems(3) by (intro ntt_middle_outside [OF l s(2)]) simp
    moreover have "jget ?r' (start + d) = ntt_lo (table_at nttZetas k)
        (jget r (start + d)) (jget r (start + d + l))"
      using l Suc.prems(3) by (subst ntt_inner_get) simp_all
    moreover have "jget ?r' (start + d + l) = ntt_hi (table_at nttZetas k)
        (jget r (start + d)) (jget r (start + d + l))"
      using l Suc.prems(3) by (subst ntt_inner_get) simp_all
    ultimately show ?thesis
      using 0 by simp
  next
    case (Suc g')
    then have g': "g' < n" using Suc.prems(2) by simp
    define m where "m = start + 2 * l + g' * (2 * l) + d"
    have idx: "start + g * (2 * l) + d = m"
      using Suc by (simp add: m_def)
    have kk: "k + 1 + g' = k + g"
      using Suc by simp
    have same: "jget ?r' i = jget r i" if "start + 2 * l \<le> i" for i
      using that l by (subst ntt_inner_get) auto
    have sm: "jget ?r' m = jget r m" "jget ?r' (m + l) = jget r (m + l)"
      by (rule same, simp add: m_def)+
    from Suc.IH [OF s(2) g' Suc.prems(3), of ?r' "start + l" "k + 1"]
    show ?thesis
      unfolding ntt_middle_step [OF l s(1)] idx kk m_def [symmetric] sm .
  qed
qed

lemma montgomeryReduce_exact:
  "65536 * montgomeryReduce a = a - signed_take_bit 15 (a * 62209) * 3329"
proof -
  define u where "u = signed_take_bit 15 (a * 62209)"
  have "take_bit 16 u = take_bit 16 (a * 62209)"
    unfolding u_def by (simp add: take_bit_signed_take_bit)
  then have "u mod 65536 = (a * 62209) mod 65536"
    by (simp add: take_bit_eq_mod)
  then have "(u * 3329) mod 65536 = (a * 62209 * 3329) mod 65536"
    by (metis mod_mult_left_eq)
  also have "\<dots> = (a * (62209 * 3329)) mod 65536"
    by (simp add: mult.assoc)
  also have "\<dots> = (a * ((62209 * 3329) mod 65536)) mod 65536"
    by (metis mod_mult_right_eq)
  also have "\<dots> = a mod 65536"
    by simp
  finally have "(a - u * 3329) mod 65536 = 0"
    by (metis mod_diff_cong cancel_comm_monoid_add_class.diff_cancel mod_0)
  then have "65536 * ((a - u * 3329) div 65536) = a - u * 3329"
    by (metis mult_div_mod_eq add.right_neutral)
  then show ?thesis
    by (simp add: montgomeryReduce_def Let_def paramsQ_def paramsQinv_def u_def drop_bit_eq_div)
qed

lemma montgomeryReduce_cong: "3329 dvd (montgomeryReduce a - 169 * a)"
proof -
  have "montgomeryReduce a - 169 * a
      = 169 * (65536 * montgomeryReduce a - a) - 3329 * (3327 * montgomeryReduce a)"
    by simp
  also have "\<dots> = 3329 * (- 169 * signed_take_bit 15 (a * 62209) - 3327 * montgomeryReduce a)"
    unfolding montgomeryReduce_exact by (simp add: algebra_simps)
  finally show ?thesis
    by (metis dvd_triv_left)
qed

lemma montgomeryReduce_bound:
  assumes "\<bar>a\<bar> < 3329 * 32768"
  shows "\<bar>montgomeryReduce a\<bar> \<le> 3328"
proof -
  define u where "u = signed_take_bit 15 (a * 62209)"
  have u: "- 32768 \<le> u" "u < 32768"
    using signed_take_bit_int_greater_eq_minus_exp [of 15 "a * 62209"]
      signed_take_bit_int_less_exp [of 15 "a * 62209"]
    by (simp_all add: u_def)
  have "65536 * montgomeryReduce a = a - u * 3329"
    by (simp add: montgomeryReduce_exact u_def)
  with assms u have "65536 * montgomeryReduce a < 65536 * 3329"
    "- (65536 * 3329) < 65536 * montgomeryReduce a"
    by linarith+
  then show ?thesis
    by linarith
qed

lemma barrettReduce_cong: "3329 dvd (barrettReduce a - a)"
  by (simp add: barrettReduce_def paramsQ_def)

lemma nttZetas_range: "\<forall>z\<in>set nttZetas. 0 \<le> z \<and> z < 3329"
  by (simp add: nttZetas_def)

lemma length_nttZetas: "length nttZetas = 128"
  by (simp add: nttZetas_def)

lemma length_nttZetasInv: "length nttZetasInv = 128"
  by (simp add: nttZetasInv_def)

lemma jget_invNTT_butterfly:
  "0 < l \<Longrightarrow> jget (invNTT_butterfly zeta l j r) i =
     (if i = j then invNTT_lo zeta (jget r j) (jget r (j + l))
      else if i = j + l then invNTT_hi zeta (jget r j) (jget r (j + l))
      else jget r i)"
  by (simp add: invNTT_butterfly_def Let_def jget_jset invNTT_lo_def invNTT_hi_def)

lemma length_invNTT_butterfly:
  "j + l < length r \<Longrightarrow> length (invNTT_butterfly zeta l j r) = length r"
  by (simp add: invNTT_butterfly_def Let_def length_jset)

lemma invNTT_inner_snd:
  "j \<le> start + l \<Longrightarrow> snd (invNTT_inner zeta l start r j) = start + l"
proof (induction zeta l start r j rule: invNTT_inner.induct)
  case (1 zeta l start r j)
  show ?case
  proof (cases "j < start + l")
    case True
    with 1 show ?thesis by (subst invNTT_inner.simps) simp
  next
    case False
    with 1 show ?thesis by (subst invNTT_inner.simps) simp
  qed
qed

lemma invNTT_inner_length:
  "start + 2 * l \<le> length r \<Longrightarrow> start \<le> j \<Longrightarrow> length (fst (invNTT_inner zeta l start r j)) = length r"
proof (induction zeta l start r j rule: invNTT_inner.induct)
  case (1 zeta l start r j)
  show ?case
  proof (cases "j < start + l")
    case True
    then have "length (invNTT_butterfly zeta l j r) = length r"
      using 1(2) by (intro length_invNTT_butterfly) simp
    with True 1 show ?thesis by (subst invNTT_inner.simps) simp
  next
    case False
    with 1 show ?thesis by (subst invNTT_inner.simps) simp
  qed
qed

lemma invNTT_inner_get:
  "0 < l \<Longrightarrow> start \<le> j \<Longrightarrow>
   jget (fst (invNTT_inner zeta l start r j)) i =
     (if j \<le> i \<and> i < start + l then invNTT_lo zeta (jget r i) (jget r (i + l))
      else if j + l \<le> i \<and> i < start + 2 * l then invNTT_hi zeta (jget r (i - l)) (jget r i)
      else jget r i)"
proof (induction zeta l start r j arbitrary: i rule: invNTT_inner.induct)
  case (1 zeta l start r j)
  show ?case
  proof (cases "j < start + l")
    case True
    have e: "invNTT_inner zeta l start r j = invNTT_inner zeta l start (invNTT_butterfly zeta l j r) (j + 1)"
      using True by (subst invNTT_inner.simps) simp
    have ih: "jget (fst (invNTT_inner zeta l start (invNTT_butterfly zeta l j r) (j + 1))) i =
     (if j + 1 \<le> i \<and> i < start + l
      then invNTT_lo zeta (jget (invNTT_butterfly zeta l j r) i) (jget (invNTT_butterfly zeta l j r) (i + l))
      else if j + 1 + l \<le> i \<and> i < start + 2 * l
      then invNTT_hi zeta (jget (invNTT_butterfly zeta l j r) (i - l)) (jget (invNTT_butterfly zeta l j r) i)
      else jget (invNTT_butterfly zeta l j r) i)"
      using 1 True by simp
    consider "i = j" | "i = j + l" | "j + 1 \<le> i \<and> i < start + l"
      | "j + 1 + l \<le> i \<and> i < start + 2 * l"
      | "\<not> (j \<le> i \<and> i < start + l) \<and> \<not> (j + l \<le> i \<and> i < start + 2 * l)"
      by linarith
    then show ?thesis
    proof cases
      case 1
      then show ?thesis
        unfolding e ih using True \<open>0 < l\<close> by (simp add: jget_invNTT_butterfly)
    next
      case 2
      then show ?thesis
        unfolding e ih using True \<open>0 < l\<close> \<open>start \<le> j\<close> by (simp add: jget_invNTT_butterfly)
    next
      case 3
      then show ?thesis
        unfolding e ih using True \<open>0 < l\<close> \<open>start \<le> j\<close> by (simp add: jget_invNTT_butterfly)
    next
      case 4
      with \<open>start \<le> j\<close> have "i - l \<noteq> j" "i - l \<noteq> j + l" "i \<noteq> j" "i \<noteq> j + l"
        by arith+
      with 4 show ?thesis
        unfolding e ih using True \<open>0 < l\<close> \<open>start \<le> j\<close> by (simp add: jget_invNTT_butterfly)
    next
      case 5
      then show ?thesis
        unfolding e ih using True \<open>0 < l\<close> \<open>start \<le> j\<close> by (auto simp: jget_invNTT_butterfly)
    qed
  next
    case False
    then show ?thesis
      by (subst invNTT_inner.simps) auto
  qed
qed

lemma invNTT_middle_done: "invNTT_middle l (r, j, k) 256 = (r, j, k)"
  by (subst invNTT_middle.simps) simp

lemma invNTT_middle_step:
  assumes "0 < l" "start < 256"
  shows "invNTT_middle l (r, j, k) start =
     invNTT_middle l (fst (invNTT_inner (table_at nttZetasInv k) l start r start), start + l, k + 1)
       (start + 2 * l)"
proof -
  have "snd (invNTT_inner (table_at nttZetasInv k) l start r start) = start + l"
    by (rule invNTT_inner_snd) simp
  then show ?thesis
    using assms by (subst invNTT_middle.simps) (simp add: Let_def mult_2 add.assoc)
qed

lemma invNTT_middle_counters:
  "0 < l \<Longrightarrow> start + n * (2 * l) = 256 \<Longrightarrow>
   snd (invNTT_middle l (r, j, k) start) = (if n = 0 then j else 256 - l, k + n)"
proof (induction n arbitrary: start r j k)
  case 0
  then show ?case by (simp add: invNTT_middle_done)
next
  case (Suc n)
  then have s: "start < 256" "start + 2 * l + n * (2 * l) = 256" by simp_all
  have "start + l = 256 - l" if "n = 0"
    using that s(2) by simp
  then show ?case
    unfolding invNTT_middle_step [OF Suc.prems(1) s(1)] Suc.IH [OF Suc.prems(1) s(2)]
    by simp
qed

lemma invNTT_middle_outside:
  "0 < l \<Longrightarrow> start + n * (2 * l) = 256 \<Longrightarrow> i < start \<or> 256 \<le> i \<Longrightarrow>
   jget (fst (invNTT_middle l (r, j, k) start)) i = jget r i"
proof (induction n arbitrary: start r j k)
  case 0
  then show ?case by (simp add: invNTT_middle_done)
next
  case (Suc n)
  then have s: "start < 256" "start + 2 * l + n * (2 * l) = 256" by simp_all
  from Suc.prems(3) s(2) have o: "i < start + 2 * l \<or> 256 \<le> i" "i < start \<or> start + 2 * l \<le> i"
    by auto
  have "jget (fst (invNTT_middle l (r, j, k) start)) i
      = jget (fst (invNTT_inner (table_at nttZetasInv k) l start r start)) i"
    unfolding invNTT_middle_step [OF Suc.prems(1) s(1)]
    by (rule Suc.IH [OF Suc.prems(1) s(2) o(1)])
  also have "\<dots> = jget r i"
    using o(2) Suc.prems(1) by (subst invNTT_inner_get) auto
  finally show ?case .
qed

lemma invNTT_middle_pair:
  assumes l: "0 < l"
  shows "start + n * (2 * l) = 256 \<Longrightarrow> g < n \<Longrightarrow> d < l \<Longrightarrow>
   jget (fst (invNTT_middle l (r, j, k) start)) (start + g * (2 * l) + d)
     = invNTT_lo (table_at nttZetasInv (k + g))
         (jget r (start + g * (2 * l) + d)) (jget r (start + g * (2 * l) + d + l))
   \<and> jget (fst (invNTT_middle l (r, j, k) start)) (start + g * (2 * l) + d + l)
     = invNTT_hi (table_at nttZetasInv (k + g))
         (jget r (start + g * (2 * l) + d)) (jget r (start + g * (2 * l) + d + l))"
proof (induction n arbitrary: start r j k g)
  case 0
  then show ?case by simp
next
  case (Suc n)
  then have s: "start < 256" "start + 2 * l + n * (2 * l) = 256" by simp_all
  let ?r' = "fst (invNTT_inner (table_at nttZetasInv k) l start r start)"
  show ?case
  proof (cases g)
    case 0
    have "jget (fst (invNTT_middle l (r, j, k) start)) (start + d) = jget ?r' (start + d)"
      unfolding invNTT_middle_step [OF l s(1)]
      using Suc.prems(3) by (intro invNTT_middle_outside [OF l s(2)]) simp
    moreover have "jget (fst (invNTT_middle l (r, j, k) start)) (start + d + l) = jget ?r' (start + d + l)"
      unfolding invNTT_middle_step [OF l s(1)]
      using Suc.prems(3) by (intro invNTT_middle_outside [OF l s(2)]) simp
    moreover have "jget ?r' (start + d) = invNTT_lo (table_at nttZetasInv k)
        (jget r (start + d)) (jget r (start + d + l))"
      using l Suc.prems(3) by (subst invNTT_inner_get) simp_all
    moreover have "jget ?r' (start + d + l) = invNTT_hi (table_at nttZetasInv k)
        (jget r (start + d)) (jget r (start + d + l))"
      using l Suc.prems(3) by (subst invNTT_inner_get) simp_all
    ultimately show ?thesis
      using 0 by simp
  next
    case (Suc g')
    then have g': "g' < n" using Suc.prems(2) by simp
    define m where "m = start + 2 * l + g' * (2 * l) + d"
    have idx: "start + g * (2 * l) + d = m"
      using Suc by (simp add: m_def)
    have kk: "k + 1 + g' = k + g"
      using Suc by simp
    have same: "jget ?r' i = jget r i" if "start + 2 * l \<le> i" for i
      using that l by (subst invNTT_inner_get) auto
    have sm: "jget ?r' m = jget r m" "jget ?r' (m + l) = jget r (m + l)"
      by (rule same, simp add: m_def)+
    from Suc.IH [OF s(2) g' Suc.prems(3), of ?r' "start + l" "k + 1"]
    show ?thesis
      unfolding invNTT_middle_step [OF l s(1)] idx kk m_def [symmetric] sm .
  qed
qed

lemma cover:
  fixes l n i :: nat
  assumes "0 < l" "n * (2 * l) = 256" "i < 256"
  obtains g d where "g < n" "d < l" "i = g * (2 * l) + d \<or> i = g * (2 * l) + d + l"
proof -
  define g where "g = i div (2 * l)"
  define e where "e = i mod (2 * l)"
  have i: "i = g * (2 * l) + e"
    unfolding g_def e_def by (rule div_mult_mod_eq [symmetric])
  have e: "e < 2 * l"
    using assms(1) by (simp add: e_def)
  have "i < n * (2 * l)" using assms(3) by (simp only: assms(2))
  then have g: "g < n"
    unfolding g_def by (simp add: less_mult_imp_div_less)
  show thesis
  proof (cases "e < l")
    case True
    with g i show ?thesis by (intro that [of g e]) simp_all
  next
    case False
    with e have "e - l < l" "e = (e - l) + l" by simp_all
    with g i show ?thesis by (intro that [of g "e - l"]) simp_all
  qed
qed

lemma pair_below:
  fixes l n g d :: nat
  assumes "n * (2 * l) = 256" "g < n" "d < l"
  shows "g * (2 * l) + d < 256" "g * (2 * l) + d + l < 256"
proof -
  have "Suc g * (2 * l) \<le> n * (2 * l)"
    using assms(2) by (intro mult_le_mono1) simp
  then have "g * (2 * l) + 2 * l \<le> 256"
    using assms(1) by simp
  with assms(3) show "g * (2 * l) + d < 256" "g * (2 * l) + d + l < 256"
    by simp_all
qed

lemma ntt_pair_vals:
  assumes "0 \<le> z" "z < 3329" "\<bar>x\<bar> \<le> B" "\<bar>y\<bar> \<le> B" "B + 3328 \<le> 32767"
  shows "\<exists>t. \<bar>t\<bar> \<le> 3328 \<and> 3329 dvd (t - 169 * z * y)
     \<and> ntt_lo (Some z) (Some x) (Some y) = Some (x + t)
     \<and> ntt_hi (Some z) (Some x) (Some y) = Some (x - t)"
proof -
  define t where "t = montgomeryReduce (z * y)"
  have y: "\<bar>y\<bar> \<le> 32767" using assms by linarith
  have "\<bar>z * y\<bar> = z * \<bar>y\<bar>"
    using assms(1) by (simp add: abs_mult)
  also have "\<dots> \<le> 3328 * \<bar>y\<bar>"
    using assms(2) by (intro mult_right_mono) simp_all
  also have "\<dots> \<le> 3328 * 32767"
    using y by simp
  finally have "\<bar>z * y\<bar> < 3329 * 32768" by simp
  then have t: "\<bar>t\<bar> \<le> 3328"
    unfolding t_def by (rule montgomeryReduce_bound)
  have c: "3329 dvd (t - 169 * z * y)"
    using montgomeryReduce_cong [of "z * y"] by (simp add: t_def mult.assoc)
  have "- 32768 \<le> x + t" "x + t \<le> 32767" "- 32768 \<le> x - t" "x - t \<le> 32767"
    using t assms(3,5) by linarith+
  then have "int16 (x + t) = x + t" "int16 (x - t) = x - t"
    by (simp_all add: int16_id)
  then have "ntt_lo (Some z) (Some x) (Some y) = Some (x + t)"
    "ntt_hi (Some z) (Some x) (Some y) = Some (x - t)"
    by (simp_all add: ntt_lo_def ntt_hi_def t_def)
  with t c show ?thesis by blast
qed

lemma ntt_layer_pair:
  assumes ok: "layer_ok n l kinv" and r: "coeffs_le B r" and B: "B + 3328 \<le> 32767"
    and g: "g < n" and d: "d < l"
  shows "\<exists>x y z z' t. jget r (g * (2 * l) + d) = Some x \<and> jget r (g * (2 * l) + d + l) = Some y
     \<and> \<bar>x\<bar> \<le> B \<and> \<bar>y\<bar> \<le> B
     \<and> table_at nttZetasInv (kinv + g) = Some z' \<and> 3329 dvd (28561 * z * z' - 1)
     \<and> \<bar>t\<bar> \<le> 3328 \<and> 3329 dvd (t - 169 * z * y)
     \<and> jget (fst (ntt_middle l (r, j, n) 0)) (g * (2 * l) + d) = Some (x + t)
     \<and> jget (fst (ntt_middle l (r, j, n) 0)) (g * (2 * l) + d + l) = Some (x - t)"
proof -
  from ok have l: "0 < l" and n: "n * (2 * l) = 256"
    by (simp_all add: layer_ok_def)
  from ok g obtain z z' where z: "table_at nttZetas (n + g) = Some z"
    "table_at nttZetasInv (kinv + g) = Some z'" "0 \<le> z" "z < 3329"
    "3329 dvd (28561 * z * z' - 1)"
    unfolding layer_ok_def by blast
  note b = pair_below [OF n g d]
  from r b obtain x y where x: "jget r (g * (2 * l) + d) = Some x" "\<bar>x\<bar> \<le> B"
    and y: "jget r (g * (2 * l) + d + l) = Some y" "\<bar>y\<bar> \<le> B"
    unfolding coeffs_le_def by blast
  from ntt_pair_vals [OF z(3,4) x(2) y(2) B]
  obtain t where t: "\<bar>t\<bar> \<le> 3328" "3329 dvd (t - 169 * z * y)"
    "ntt_lo (Some z) (Some x) (Some y) = Some (x + t)"
    "ntt_hi (Some z) (Some x) (Some y) = Some (x - t)"
    by blast
  have n0: "0 + n * (2 * l) = 256" using n by simp
  from ntt_middle_pair [OF l n0 g d, of r j n]
  have "jget (fst (ntt_middle l (r, j, n) 0)) (g * (2 * l) + d) = Some (x + t)"
    "jget (fst (ntt_middle l (r, j, n) 0)) (g * (2 * l) + d + l) = Some (x - t)"
    by (simp_all add: z(1) x(1) y(1) t(3,4))
  with x y z(2,5) t(1,2) show ?thesis by blast
qed

lemma ntt_layer_bound:
  assumes ok: "layer_ok n l kinv" and r: "coeffs_le B r" and B: "B + 3328 \<le> 32767"
  shows "coeffs_le (B + 3328) (fst (ntt_middle l (r, j, n) 0))"
  unfolding coeffs_le_def
proof (intro allI impI)
  fix i :: nat assume i: "i < 256"
  from ok have l: "0 < l" and n: "n * (2 * l) = 256"
    by (simp_all add: layer_ok_def)
  from cover [OF l n i] obtain g d where g: "g < n" and d: "d < l"
    and c: "i = g * (2 * l) + d \<or> i = g * (2 * l) + d + l"
    by blast
  from ntt_layer_pair [OF ok r B g d, of j]
  obtain x t where "\<bar>x\<bar> \<le> B" "\<bar>t\<bar> \<le> 3328"
    "jget (fst (ntt_middle l (r, j, n) 0)) (g * (2 * l) + d) = Some (x + t)"
    "jget (fst (ntt_middle l (r, j, n) 0)) (g * (2 * l) + d + l) = Some (x - t)"
    by blast
  moreover from this have "\<bar>x + t\<bar> \<le> B + 3328" "\<bar>x - t\<bar> \<le> B + 3328"
    by linarith+
  ultimately show "\<exists>x. jget (fst (ntt_middle l (r, j, n) 0)) i = Some x \<and> \<bar>x\<bar> \<le> B + 3328"
    using c by auto
qed

lemma invNTT_layer_pair:
  assumes l: "0 < l" and n: "n * (2 * l) = 256" and g: "g < n" and d: "d < l"
    and z: "table_at nttZetasInv (kinv + g) = Some z'"
    and x: "jget r (g * (2 * l) + d) = Some x" and y: "jget r (g * (2 * l) + d + l) = Some y"
  shows "jget (fst (invNTT_middle l (r, j, kinv) 0)) (g * (2 * l) + d) = Some (barrettReduce (x + y))"
    and "jget (fst (invNTT_middle l (r, j, kinv) 0)) (g * (2 * l) + d + l)
      = Some (montgomeryReduce (z' * (x - y)))"
proof -
  have n0: "0 + n * (2 * l) = 256" using n by simp
  from invNTT_middle_pair [OF l n0 g d, of r j kinv]
  show "jget (fst (invNTT_middle l (r, j, kinv) 0)) (g * (2 * l) + d) = Some (barrettReduce (x + y))"
    and "jget (fst (invNTT_middle l (r, j, kinv) 0)) (g * (2 * l) + d + l)
      = Some (montgomeryReduce (z' * (x - y)))"
    by (simp_all add: z x y invNTT_lo_def invNTT_hi_def)
qed

lemma scaled_trans:
  assumes "scaled c r s" "scaled e s t"
  shows "scaled (c * e) r t"
  unfolding scaled_def
proof (intro allI impI)
  fix i :: nat assume i: "i < 256"
  from assms(1) i obtain x y where 1: "jget r i = Some x" "jget s i = Some y" "3329 dvd (x - c * y)"
    unfolding scaled_def by blast
  from assms(2) i 1(2) obtain w where 2: "jget t i = Some w" "3329 dvd (y - e * w)"
    unfolding scaled_def by force
  have eq: "x - c * e * w = (x - c * y) + c * (y - e * w)"
    by (simp add: algebra_simps)
  have "3329 dvd (x - c * e * w)"
    unfolding eq by (rule dvd_add [OF 1(3) dvd_mult [OF 2(2)]])
  with 1(1) 2(1) show "\<exists>x y. jget r i = Some x \<and> jget t i = Some y \<and> 3329 dvd (x - c * e * y)"
    by blast
qed

lemma invNTT_layer_scaled:
  assumes ok: "layer_ok n l kinv" and rs: "scaled c r s"
  shows "scaled c (fst (invNTT_middle l (r, j, kinv) 0)) (fst (invNTT_middle l (s, j', kinv) 0))"
  unfolding scaled_def
proof (intro allI impI)
  fix i :: nat assume i: "i < 256"
  from ok have l: "0 < l" and n: "n * (2 * l) = 256"
    by (simp_all add: layer_ok_def)
  from cover [OF l n i] obtain g d where g: "g < n" and d: "d < l"
    and c: "i = g * (2 * l) + d \<or> i = g * (2 * l) + d + l"
    by blast
  from ok g obtain z' where z: "table_at nttZetasInv (kinv + g) = Some z'"
    unfolding layer_ok_def by blast
  note b = pair_below [OF n g d]
  from rs b(1) obtain x1 x2 where x: "jget r (g * (2 * l) + d) = Some x1"
    "jget s (g * (2 * l) + d) = Some x2" "3329 dvd (x1 - c * x2)"
    unfolding scaled_def by blast
  from rs b(2) obtain y1 y2 where y: "jget r (g * (2 * l) + d + l) = Some y1"
    "jget s (g * (2 * l) + d + l) = Some y2" "3329 dvd (y1 - c * y2)"
    unfolding scaled_def by blast
  note R = invNTT_layer_pair [OF l n g d z x(1) y(1), of j]
  note S = invNTT_layer_pair [OF l n g d z x(2) y(2), of j']
  have eq1: "barrettReduce (x1 + y1) - c * barrettReduce (x2 + y2)
      = (barrettReduce (x1 + y1) - (x1 + y1)) - c * (barrettReduce (x2 + y2) - (x2 + y2))
        + (x1 - c * x2) + (y1 - c * y2)"
    by (simp add: algebra_simps)
  have lo: "3329 dvd (barrettReduce (x1 + y1) - c * barrettReduce (x2 + y2))"
    unfolding eq1
    by (rule dvd_add [OF dvd_add [OF dvd_diff [OF barrettReduce_cong
          dvd_mult [OF barrettReduce_cong]] x(3)] y(3)])
  have eq2: "montgomeryReduce (z' * (x1 - y1)) - c * montgomeryReduce (z' * (x2 - y2))
      = (montgomeryReduce (z' * (x1 - y1)) - 169 * (z' * (x1 - y1)))
        - c * (montgomeryReduce (z' * (x2 - y2)) - 169 * (z' * (x2 - y2)))
        + 169 * z' * (x1 - c * x2) - 169 * z' * (y1 - c * y2)"
    by (simp add: algebra_simps)
  have hi: "3329 dvd (montgomeryReduce (z' * (x1 - y1)) - c * montgomeryReduce (z' * (x2 - y2)))"
    unfolding eq2
    by (rule dvd_diff [OF dvd_add [OF dvd_diff [OF montgomeryReduce_cong
          dvd_mult [OF montgomeryReduce_cong]] dvd_mult [OF x(3)]] dvd_mult [OF y(3)]])
  from c show "\<exists>x y. jget (fst (invNTT_middle l (r, j, kinv) 0)) i = Some x
      \<and> jget (fst (invNTT_middle l (s, j', kinv) 0)) i = Some y \<and> 3329 dvd (x - c * y)"
  proof
    assume "i = g * (2 * l) + d"
    with R(1) S(1) lo show ?thesis by simp
  next
    assume "i = g * (2 * l) + d + l"
    with R(2) S(2) hi show ?thesis by simp
  qed
qed

lemma layer_cancel:
  assumes ok: "layer_ok n l kinv" and r: "coeffs_le B r" and B: "B + 3328 \<le> 32767"
  shows "scaled 2 (fst (invNTT_middle l (fst (ntt_middle l (r, j, n) 0), j', kinv) 0)) r"
  unfolding scaled_def
proof (intro allI impI)
  fix i :: nat assume i: "i < 256"
  from ok have l: "0 < l" and n: "n * (2 * l) = 256"
    by (simp_all add: layer_ok_def)
  from cover [OF l n i] obtain g d where g: "g < n" and d: "d < l"
    and c: "i = g * (2 * l) + d \<or> i = g * (2 * l) + d + l"
    by blast
  let ?N = "fst (ntt_middle l (r, j, n) 0)"
  from ntt_layer_pair [OF ok r B g d, of j]
  obtain x y z z' t where x: "jget r (g * (2 * l) + d) = Some x"
    and y: "jget r (g * (2 * l) + d + l) = Some y"
    and z: "table_at nttZetasInv (kinv + g) = Some z'" "3329 dvd (28561 * z * z' - 1)"
    and t: "3329 dvd (t - 169 * z * y)"
    and N: "jget ?N (g * (2 * l) + d) = Some (x + t)" "jget ?N (g * (2 * l) + d + l) = Some (x - t)"
    by blast
  note I = invNTT_layer_pair [OF l n g d z(1) N, of j']
  have "barrettReduce (x + t + (x - t)) - 2 * x
      = barrettReduce (x + t + (x - t)) - (x + t + (x - t))"
    by simp
  then have lo: "3329 dvd (barrettReduce (x + t + (x - t)) - 2 * x)"
    using barrettReduce_cong [of "x + t + (x - t)"] by simp
  have eq: "montgomeryReduce (z' * (x + t - (x - t))) - 2 * y
      = (montgomeryReduce (z' * (x + t - (x - t))) - 169 * (z' * (x + t - (x - t))))
        + 338 * z' * (t - 169 * z * y) + 2 * y * (28561 * z * z' - 1)"
    by (simp add: algebra_simps)
  have hi: "3329 dvd (montgomeryReduce (z' * (x + t - (x - t))) - 2 * y)"
    unfolding eq
    by (rule dvd_add [OF dvd_add [OF montgomeryReduce_cong dvd_mult [OF t]] dvd_mult [OF z(2)]])
  from c show "\<exists>v w. jget (fst (invNTT_middle l (?N, j', kinv) 0)) i = Some v
      \<and> jget r i = Some w \<and> 3329 dvd (v - 2 * w)"
  proof
    assume "i = g * (2 * l) + d"
    with I(1) x lo show ?thesis by simp
  next
    assume "i = g * (2 * l) + d + l"
    with I(2) y hi show ?thesis by simp
  qed
qed

lemma layer_okI:
  assumes "0 < l" "n * (2 * l) = 256" "n + n \<le> 128" "kinv + n \<le> 128"
    and p: "list_all2 (\<lambda>z z'. 0 \<le> z \<and> z < 3329 \<and> (28561 * z * z') mod 3329 = 1)
         (take n (drop n nttZetas)) (take n (drop kinv nttZetasInv))"
  shows "layer_ok n l kinv"
  unfolding layer_ok_def
proof (intro conjI allI impI)
  fix g assume g: "g < n"
  have la: "g < length (take n (drop n nttZetas))"
    using g assms(3) by (simp add: length_nttZetas)
  have a: "take n (drop n nttZetas) ! g = nttZetas ! (n + g)"
    using g assms(3) by (simp add: length_nttZetas)
  have b: "take n (drop kinv nttZetasInv) ! g = nttZetasInv ! (kinv + g)"
    using g assms(4) by (simp add: length_nttZetasInv)
  from list_all2_nthD [OF p la]
  have P: "0 \<le> nttZetas ! (n + g)" "nttZetas ! (n + g) < 3329"
    "(28561 * nttZetas ! (n + g) * nttZetasInv ! (kinv + g)) mod 3329 = 1 mod 3329"
    unfolding a b by simp_all
  from P(3) have d: "3329 dvd (28561 * nttZetas ! (n + g) * nttZetasInv ! (kinv + g) - 1)"
    by (simp only: mod_eq_dvd_iff)
  have "table_at nttZetas (n + g) = Some (nttZetas ! (n + g))"
    "table_at nttZetasInv (kinv + g) = Some (nttZetasInv ! (kinv + g))"
    using g assms(3,4) by (simp_all add: table_at_def length_nttZetas length_nttZetasInv)
  with P(1,2) d
  show "\<exists>z z'. table_at nttZetas (n + g) = Some z \<and> table_at nttZetasInv (kinv + g) = Some z'
      \<and> 0 \<le> z \<and> z < 3329 \<and> 3329 dvd (28561 * z * z' - 1)"
    by blast
qed (use assms in simp_all)

lemma layer_ok_128: "layer_ok 1 128 126"
  by (rule layer_okI) (simp_all add: nttZetas_def nttZetasInv_def)

lemma layer_ok_64: "layer_ok 2 64 124"
  by (rule layer_okI) (simp_all add: nttZetas_def nttZetasInv_def)

lemma layer_ok_32: "layer_ok 4 32 120"
  by (rule layer_okI) (simp_all add: nttZetas_def nttZetasInv_def)

lemma layer_ok_16: "layer_ok 8 16 112"
  by (rule layer_okI) (simp_all add: nttZetas_def nttZetasInv_def)

lemma layer_ok_8: "layer_ok 16 8 96"
  by (rule layer_okI) (simp_all add: nttZetas_def nttZetasInv_def)

lemma layer_ok_4: "layer_ok 32 4 64"
  by (rule layer_okI) (simp_all add: nttZetas_def nttZetasInv_def)

lemma layer_ok_2: "layer_ok 64 2 0"
  by (rule layer_okI) (simp_all add: nttZetas_def nttZetasInv_def)

lemma ntt_middle_triple:
  assumes "layer_ok n l kinv" "0 < n"
  shows "ntt_middle l (r, j, k) 0 = (fst (ntt_middle l (r, j, k) 0), 256 - l, k + n)"
proof -
  from assms(1) have l: "0 < l" and n: "0 + n * (2 * l) = 256"
    by (simp_all add: layer_ok_def)
  from ntt_middle_counters [OF l n, of r j k] assms(2)
  have "snd (ntt_middle l (r, j, k) 0) = (256 - l, k + n)" by simp
  then show ?thesis
    by (metis prod.collapse)
qed

lemma invNTT_middle_triple:
  assumes "layer_ok n l kinv" "0 < n"
  shows "invNTT_middle l (r, j, k) 0 = (fst (invNTT_middle l (r, j, k) 0), 256 - l, k + n)"
proof -
  from assms(1) have l: "0 < l" and n: "0 + n * (2 * l) = 256"
    by (simp_all add: layer_ok_def)
  from invNTT_middle_counters [OF l n, of r j k] assms(2)
  have "snd (invNTT_middle l (r, j, k) 0) = (256 - l, k + n)" by simp
  then show ?thesis
    by (metis prod.collapse)
qed

lemma ntt_unroll:
  "ntt p = fst (ntt_middle 2 (ntt_middle 4 (ntt_middle 8 (ntt_middle 16 (ntt_middle 32
     (ntt_middle 64 (ntt_middle 128 (p, 0, 1) 0) 0) 0) 0) 0) 0) 0)"
  unfolding ntt_def
  by (subst ntt_outer.simps, simp)+

lemma invNTT_outer_unroll:
  "invNTT_outer 2 (r, 0, 0) = fst (invNTT_middle 128 (invNTT_middle 64 (invNTT_middle 32
     (invNTT_middle 16 (invNTT_middle 8 (invNTT_middle 4 (invNTT_middle 2 (r, 0, 0) 0) 0) 0) 0)
     0) 0) 0)"
  by (subst invNTT_outer.simps, simp)+

lemma invNTT_ntt_scaled:
  assumes p: "coeffs_le 9471 p"
  shows "scaled 65536 (invNTT (ntt p)) p"
proof -
  define r1 where "r1 = fst (ntt_middle 128 (p, 0, 1) 0)"
  define r2 where "r2 = fst (ntt_middle 64 (r1, 128, 2) 0)"
  define r3 where "r3 = fst (ntt_middle 32 (r2, 192, 4) 0)"
  define r4 where "r4 = fst (ntt_middle 16 (r3, 224, 8) 0)"
  define r5 where "r5 = fst (ntt_middle 8 (r4, 240, 16) 0)"
  define r6 where "r6 = fst (ntt_middle 4 (r5, 248, 32) 0)"
  define r7 where "r7 = fst (ntt_middle 2 (r6, 252, 64) 0)"
  have e1: "ntt_middle 128 (p, 0, 1) 0 = (r1, 128, 2)"
    unfolding r1_def using ntt_middle_triple [OF layer_ok_128, of p 0 1]
    by (simp del: One_nat_def)
  have e2: "ntt_middle 64 (r1, 128, 2) 0 = (r2, 192, 4)"
    unfolding r2_def using ntt_middle_triple [OF layer_ok_64, of r1 128 2] by simp
  have e3: "ntt_middle 32 (r2, 192, 4) 0 = (r3, 224, 8)"
    unfolding r3_def using ntt_middle_triple [OF layer_ok_32, of r2 192 4] by simp
  have e4: "ntt_middle 16 (r3, 224, 8) 0 = (r4, 240, 16)"
    unfolding r4_def using ntt_middle_triple [OF layer_ok_16, of r3 224 8] by simp
  have e5: "ntt_middle 8 (r4, 240, 16) 0 = (r5, 248, 32)"
    unfolding r5_def using ntt_middle_triple [OF layer_ok_8, of r4 240 16] by simp
  have e6: "ntt_middle 4 (r5, 248, 32) 0 = (r6, 252, 64)"
    unfolding r6_def using ntt_middle_triple [OF layer_ok_4, of r5 248 32] by simp
  have n: "ntt p = r7"
    unfolding ntt_unroll e1 e2 e3 e4 e5 e6 r7_def ..
  define u1 where "u1 = fst (invNTT_middle 2 (r7, 0, 0) 0)"
  define u2 where "u2 = fst (invNTT_middle 4 (u1, 254, 64) 0)"
  define u3 where "u3 = fst (invNTT_middle 8 (u2, 252, 96) 0)"
  define u4 where "u4 = fst (invNTT_middle 16 (u3, 248, 112) 0)"
  define u5 where "u5 = fst (invNTT_middle 32 (u4, 240, 120) 0)"
  define u6 where "u6 = fst (invNTT_middle 64 (u5, 224, 124) 0)"
  define u7 where "u7 = fst (invNTT_middle 128 (u6, 192, 126) 0)"
  have f1: "invNTT_middle 2 (r7, 0, 0) 0 = (u1, 254, 64)"
    unfolding u1_def using invNTT_middle_triple [OF layer_ok_2, of r7 0 0] by simp
  have f2: "invNTT_middle 4 (u1, 254, 64) 0 = (u2, 252, 96)"
    unfolding u2_def using invNTT_middle_triple [OF layer_ok_4, of u1 254 64] by simp
  have f3: "invNTT_middle 8 (u2, 252, 96) 0 = (u3, 248, 112)"
    unfolding u3_def using invNTT_middle_triple [OF layer_ok_8, of u2 252 96] by simp
  have f4: "invNTT_middle 16 (u3, 248, 112) 0 = (u4, 240, 120)"
    unfolding u4_def using invNTT_middle_triple [OF layer_ok_16, of u3 248 112] by simp
  have f5: "invNTT_middle 32 (u4, 240, 120) 0 = (u5, 224, 124)"
    unfolding u5_def using invNTT_middle_triple [OF layer_ok_32, of u4 240 120] by simp
  have f6: "invNTT_middle 64 (u5, 224, 124) 0 = (u6, 192, 126)"
    unfolding u6_def using invNTT_middle_triple [OF layer_ok_64, of u5 224 124] by simp
  have u: "invNTT_outer 2 (r7, 0, 0) = u7"
    unfolding invNTT_outer_unroll f1 f2 f3 f4 f5 f6 u7_def ..
  have c1: "coeffs_le (9471 + 3328) r1"
    unfolding r1_def by (rule ntt_layer_bound [OF layer_ok_128 p]) simp
  then have c1': "coeffs_le 12799 r1" by simp
  have c2: "coeffs_le (12799 + 3328) r2"
    unfolding r2_def by (rule ntt_layer_bound [OF layer_ok_64 c1']) simp
  then have c2': "coeffs_le 16127 r2" by simp
  have c3: "coeffs_le (16127 + 3328) r3"
    unfolding r3_def by (rule ntt_layer_bound [OF layer_ok_32 c2']) simp
  then have c3': "coeffs_le 19455 r3" by simp
  have c4: "coeffs_le (19455 + 3328) r4"
    unfolding r4_def by (rule ntt_layer_bound [OF layer_ok_16 c3']) simp
  then have c4': "coeffs_le 22783 r4" by simp
  have c5: "coeffs_le (22783 + 3328) r5"
    unfolding r5_def by (rule ntt_layer_bound [OF layer_ok_8 c4']) simp
  then have c5': "coeffs_le 26111 r5" by simp
  have c6: "coeffs_le (26111 + 3328) r6"
    unfolding r6_def by (rule ntt_layer_bound [OF layer_ok_4 c5']) simp
  then have c6': "coeffs_le 29439 r6" by simp
  have s1: "scaled 2 u1 r6"
    unfolding u1_def r7_def by (rule layer_cancel [OF layer_ok_2 c6']) simp
  have "scaled 2 u2 (fst (invNTT_middle 4 (r6, 0, 64) 0))"
    unfolding u2_def by (rule invNTT_layer_scaled [OF layer_ok_4 s1])
  moreover have "scaled 2 (fst (invNTT_middle 4 (r6, 0, 64) 0)) r5"
    unfolding r6_def by (rule layer_cancel [OF layer_ok_4 c5']) simp
  ultimately have s2: "scaled 4 u2 r5"
    using scaled_trans [of 2 _ _ 2] by fastforce
  have "scaled 4 u3 (fst (invNTT_middle 8 (r5, 0, 96) 0))"
    unfolding u3_def by (rule invNTT_layer_scaled [OF layer_ok_8 s2])
  moreover have "scaled 2 (fst (invNTT_middle 8 (r5, 0, 96) 0)) r4"
    unfolding r5_def by (rule layer_cancel [OF layer_ok_8 c4']) simp
  ultimately have s3: "scaled 8 u3 r4"
    using scaled_trans [of 4 _ _ 2] by fastforce
  have "scaled 8 u4 (fst (invNTT_middle 16 (r4, 0, 112) 0))"
    unfolding u4_def by (rule invNTT_layer_scaled [OF layer_ok_16 s3])
  moreover have "scaled 2 (fst (invNTT_middle 16 (r4, 0, 112) 0)) r3"
    unfolding r4_def by (rule layer_cancel [OF layer_ok_16 c3']) simp
  ultimately have s4: "scaled 16 u4 r3"
    using scaled_trans [of 8 _ _ 2] by fastforce
  have "scaled 16 u5 (fst (invNTT_middle 32 (r3, 0, 120) 0))"
    unfolding u5_def by (rule invNTT_layer_scaled [OF layer_ok_32 s4])
  moreover have "scaled 2 (fst (invNTT_middle 32 (r3, 0, 120) 0)) r2"
    unfolding r3_def by (rule layer_cancel [OF layer_ok_32 c2']) simp
  ultimately have s5: "scaled 32 u5 r2"
    using scaled_trans [of 16 _ _ 2] by fastforce
  have "scaled 32 u6 (fst (invNTT_middle 64 (r2, 0, 124) 0))"
    unfolding u6_def by (rule invNTT_layer_scaled [OF layer_ok_64 s5])
  moreover have "scaled 2 (fst (invNTT_middle 64 (r2, 0, 124) 0)) r1"
    unfolding r2_def by (rule layer_cancel [OF layer_ok_64 c1']) simp
  ultimately have s6: "scaled 64 u6 r1"
    using scaled_trans [of 32 _ _ 2] by fastforce
  have "scaled 64 u7 (fst (invNTT_middle 128 (r1, 0, 126) 0))"
    unfolding u7_def by (rule invNTT_layer_scaled [OF layer_ok_128 s6])
  moreover have "scaled 2 (fst (invNTT_middle 128 (r1, 0, 126) 0)) p"
    unfolding r1_def by (rule layer_cancel [OF layer_ok_128 p]) simp
  ultimately have s7: "scaled 128 u7 p"
    using scaled_trans [of 64 _ _ 2] by fastforce
  have f: "table_at nttZetasInv 127 = Some 1441"
    by (simp add: table_at_def nttZetasInv_def)
  show ?thesis
    unfolding scaled_def
  proof (intro allI impI)
    fix i :: nat assume i: "i < 256"
    from s7 i obtain y x where y: "jget u7 i = Some y" and x: "jget p i = Some x"
      and d: "3329 dvd (y - 128 * x)"
      unfolding scaled_def by blast
    have "jget (invNTT (ntt p)) i = modQMulMont (jget u7 i) (table_at nttZetasInv 127)"
      unfolding invNTT_def n u
      using fold_jset_pointwise [of 0 "\<lambda>j v. modQMulMont v (table_at nttZetasInv 127)" 256 u7 i] i
      by simp
    then have g: "jget (invNTT (ntt p)) i = Some (montgomeryReduce (y * 1441))"
      by (simp add: y f)
    have eq: "montgomeryReduce (y * 1441) - 65536 * x
        = (montgomeryReduce (y * 1441) - 169 * (y * 1441)) + 243529 * (y - 128 * x)
          + 3329 * (9344 * x)"
      by (simp add: algebra_simps)
    have "3329 dvd (montgomeryReduce (y * 1441) - 65536 * x)"
      unfolding eq
      by (rule dvd_add [OF dvd_add [OF montgomeryReduce_cong dvd_mult [OF d]] dvd_triv_left])
    with g x show "\<exists>z x. jget (invNTT (ntt p)) i = Some z \<and> jget p i = Some x
        \<and> 3329 dvd (z - 65536 * x)"
      by blast
  qed
qed

section \<open>The inverse transform of the transform\<close>

text \<open>
  C4 (as the code has it): for a polynomial \<open>p\<close> whose 256 coefficients are numbers of
  absolute value at most 9471, every coefficient of \<open>invNTT (ntt p)\<close> is congruent
  modulo \<open>q\<close> to \<open>2^16\<close> times the coefficient of \<open>p\<close>: the result is \<open>p\<close> in
  Montgomery form. The bound keeps the 16-bit sums of the seven layers of \<open>ntt\<close> from
  wrapping (\<open>9471 + 7 * 3328 = 32767\<close>).
\<close>

theorem invNTT_ntt_montgomery:
  assumes "\<forall>i<paramsN. \<exists>x. jget p i = Some x \<and> \<bar>x\<bar> \<le> 9471"
  shows "\<forall>i<paramsN. \<exists>x z. jget p i = Some x \<and> jget (invNTT (ntt p)) i = Some z
           \<and> z mod paramsQ = (2 ^ 16 * x) mod paramsQ"
proof (intro allI impI)
  fix i assume "i < paramsN"
  then have i: "i < 256" by (simp add: paramsN_def)
  from assms have "coeffs_le 9471 p"
    by (simp add: coeffs_le_def paramsN_def)
  then have "scaled 65536 (invNTT (ntt p)) p"
    by (rule invNTT_ntt_scaled)
  with i obtain z x where "jget (invNTT (ntt p)) i = Some z" "jget p i = Some x"
    "3329 dvd (z - 65536 * x)"
    unfolding scaled_def by blast
  moreover from this have "z mod 3329 = (65536 * x) mod 3329"
    by (simp only: mod_eq_dvd_iff)
  ultimately show "\<exists>x z. jget p i = Some x \<and> jget (invNTT (ntt p)) i = Some z
      \<and> z mod paramsQ = (2 ^ 16 * x) mod paramsQ"
    by (simp add: paramsQ_def)
qed

theorem invNTT_ntt_montgomery_witness:
  "\<exists>z. jget (invNTT (ntt (replicate 256 (Some 1)))) 0 = Some z \<and> z mod paramsQ = 2285"
proof -
  have h: "\<forall>i<paramsN. \<exists>x. jget (replicate 256 (Some 1)) i = Some x \<and> \<bar>x\<bar> \<le> 9471"
    by (simp add: jget_def paramsN_def)
  have "(0 :: nat) < paramsN"
    by (simp add: paramsN_def)
  with invNTT_ntt_montgomery [OF h]
  obtain x z where "jget (replicate 256 (Some 1)) 0 = Some x"
    "jget (invNTT (ntt (replicate 256 (Some 1)))) 0 = Some z"
    "z mod paramsQ = (2 ^ 16 * x) mod paramsQ"
    by blast
  then show ?thesis
    by (simp add: jget_def paramsQ_def)
qed

text \<open>
  C4 as stated fails: for the polynomial 1 (coefficient 0 is 1, the others are 0), in
  the centred range, coefficient 0 of \<open>invNTT (ntt p)\<close> is congruent to
  \<open>2285 = 2^16 mod q\<close> and not to 1.
\<close>

theorem invNTT_ntt_not_identity:
  "the (jget (invNTT (ntt (Some 1 # replicate 255 (Some 0)))) 0) mod paramsQ = 2285
   \<and> the (jget (Some 1 # replicate 255 (Some 0)) 0) mod paramsQ = 1"
proof -
  have "coeffs_le 9471 (Some 1 # replicate 255 (Some 0))"
    unfolding coeffs_le_def
  proof (intro allI impI)
    fix i :: nat assume "i < 256"
    then show "\<exists>x. jget (Some 1 # replicate 255 (Some 0)) i = Some x \<and> \<bar>x\<bar> \<le> 9471"
      by (cases i) (simp_all add: jget_def)
  qed
  then have "scaled 65536 (invNTT (ntt (Some 1 # replicate 255 (Some 0))))
      (Some 1 # replicate 255 (Some 0))"
    by (rule invNTT_ntt_scaled)
  moreover have "(0 :: nat) < 256" by simp
  ultimately obtain z x where z: "jget (invNTT (ntt (Some 1 # replicate 255 (Some 0)))) 0 = Some z"
    and x: "jget (Some 1 # replicate 255 (Some 0)) 0 = Some x"
    and d: "3329 dvd (z - 65536 * x)"
    unfolding scaled_def by blast
  from x have x1: "x = 1" by (simp add: jget_def)
  from d have "z mod 3329 = (65536 * x) mod 3329"
    by (simp only: mod_eq_dvd_iff)
  with x1 have "z mod 3329 = 2285" by simp
  with z show ?thesis
    by (simp add: paramsQ_def jget_def)
qed

section \<open>The slots of a polynomial array\<close>

lemma same_coeffsD: "same_coeffs r r' \<Longrightarrow> i < 256 \<Longrightarrow> jget r i = jget r' i"
  by (simp add: same_coeffs_def paramsN_def)

lemma same_coeffsI: "(\<And>i. i < 256 \<Longrightarrow> jget r i = jget r' i) \<Longrightarrow> same_coeffs r r'"
  by (simp add: same_coeffs_def paramsN_def)

lemma same_coeffs_take: "same_coeffs r (take paramsN r)"
  by (simp add: same_coeffs_def jget_def)

lemma fold_same:
  assumes step: "\<And>i x x'. i < n \<Longrightarrow> same_coeffs x x' \<Longrightarrow> same_coeffs (f i x) (f' i x')"
    and r: "same_coeffs r r'"
  shows "m \<le> n \<Longrightarrow> same_coeffs (fold f [0..<m] r) (fold f' [0..<m] r')"
proof (induction m)
  case 0
  then show ?case by (simp add: r)
next
  case (Suc m)
  then have "same_coeffs (fold f [0..<m] r) (fold f' [0..<m] r')" by simp
  from step [OF _ this, of m] Suc.prems show ?case by simp
qed

lemma fold_rest:
  assumes step: "\<And>i x. i < n \<Longrightarrow> jget (f i x) k = jget x k"
  shows "m \<le> n \<Longrightarrow> jget (fold f [0..<m] r) k = jget r k"
proof (induction m)
  case 0
  then show ?case by simp
next
  case (Suc m)
  then show ?case by (simp add: step)
qed

lemma polyConditionalSubQ_same:
  "same_coeffs r r' \<Longrightarrow> same_coeffs (polyConditionalSubQ r) (polyConditionalSubQ r')"
  by (rule same_coeffsI) (simp add: jget_polyConditionalSubQ same_coeffsD)

lemma polyConditionalSubQ_rest:
  "256 \<le> i \<Longrightarrow> jget (polyConditionalSubQ r) i = jget r i"
  by (simp add: jget_polyConditionalSubQ)

lemma jget_polyReduce_array:
  "jget (polyReduce_array r) k = (if k < 256 then map_option barrettReduce (jget r k) else jget r k)"
  unfolding polyReduce_array_def paramsN_def
  using fold_jset_pointwise [of 0 "\<lambda>i. map_option barrettReduce" 256 r k] by simp

lemma jget_polyToMont:
  "jget (polyToMont r) k =
     (if k < 256
      then map_option montgomeryReduce (js_mul (map_option int32 (jget r k)) (Some (int32 1353)))
      else jget r k)"
  unfolding polyToMont_def paramsN_def
  using fold_jset_pointwise [of 0 "\<lambda>i x. map_option montgomeryReduce (js_mul (map_option int32 x) (Some (int32 1353)))" 256 r k]
  by simp

lemma jget_subtract:
  "jget (subtract a b) k = (if k < 256 then js_sub (jget a k) (jget b k) else jget a k)"
  unfolding subtract_def paramsN_def
  using fold_jset_pointwise [of 0 "\<lambda>i x. js_sub x (jget b i)" 256 a k]
  by simp

lemma jget_polyAdd_array:
  "jget (polyAdd_array a b) k = (if k < 256 then js_add (jget a k) (jget b k) else None)"
  unfolding polyAdd_array_def paramsN_def Let_def
  using fold_jset_pointwise [of 0 "\<lambda>i x. js_add (jget a i) (jget b i)" 256 "replicate (length a) None" k]
  by (simp add: jget_def)

lemma length_polyAdd_array: "256 \<le> length a \<Longrightarrow> length (polyAdd_array a b) = length a"
  unfolding polyAdd_array_def paramsN_def Let_def
  using length_fold_jset [of 0 256 "replicate (length a) None" "\<lambda>i x. js_add (jget a i) (jget b i)"]
  by simp

lemma baseMul_step_same:
  assumes "i < 64" "same_coeffs a a'" "same_coeffs b b'"
  shows "same_coeffs (baseMul_step b i a) (baseMul_step b' i a')"
proof -
  from assms(1) have i: "4 * i < 256" "4 * i + 1 < 256" "4 * i + 2 < 256" "4 * i + 3 < 256"
    by simp_all
  note e = i [THEN same_coeffsD [OF assms(2)]] i [THEN same_coeffsD [OF assms(3)]]
  show ?thesis
    unfolding baseMul_step_def Let_def e
    by (rule same_coeffsI) (simp add: jget_jset same_coeffsD [OF assms(2)])
qed

lemma baseMul_step_rest:
  "i < 64 \<Longrightarrow> 256 \<le> k \<Longrightarrow> jget (baseMul_step b i a) k = jget a k"
  by (simp add: baseMul_step_def Let_def jget_jset)

lemma baseMul_same:
  assumes "same_coeffs a a'" "same_coeffs b b'"
  shows "same_coeffs (baseMul a b) (baseMul a' b')"
  unfolding baseMul_def paramsN_def
  by (rule fold_same [where n = 64]) (simp_all add: baseMul_step_same assms)

lemma baseMul_rest: "256 \<le> k \<Longrightarrow> jget (baseMul a b) k = jget a k"
  unfolding baseMul_def paramsN_def
  by (rule fold_rest [where n = 64]) (simp_all add: baseMul_step_rest)

lemma polyToBytes_step_same:
  assumes "i < 128" "same_coeffs a a'"
  shows "polyToBytes_step a i = polyToBytes_step a' i"
proof -
  from assms(1) have i: "2 * i < 256" "2 * i + 1 < 256" by simp_all
  note e = i [THEN same_coeffsD [OF assms(2)]]
  show ?thesis
    unfolding polyToBytes_step_def Let_def e ..
qed

lemma polyToBytes_same:
  assumes "same_coeffs r r'"
  shows "polyToBytes r = polyToBytes r'"
  unfolding polyToBytes_def Let_def paramsN_def
  by (rule fold_cong) (simp_all add: polyToBytes_step_same polyConditionalSubQ_same [OF assms])

lemma polyToMsg_inner_same:
  assumes "i < 32" "j < 8" "same_coeffs a a'"
  shows "polyToMsg_inner a i j = polyToMsg_inner a' i j"
proof -
  from assms(1,2) have i: "8 * i + j < 256" by simp
  note e = same_coeffsD [OF assms(3) i]
  show ?thesis
    unfolding polyToMsg_inner_def Let_def e ..
qed

lemma polyToMsg_same:
  assumes "same_coeffs r r'"
  shows "polyToMsg r = polyToMsg r'"
  unfolding polyToMsg_def Let_def paramsN_def
proof (rule fold_cong [OF refl refl])
  fix i assume "i \<in> set [0..<256 div 8]"
  then have i: "i < 32" by simp
  show "fold (polyToMsg_inner (polyConditionalSubQ r) i) [0..<8]
      = fold (polyToMsg_inner (polyConditionalSubQ r') i) [0..<8]"
  proof (rule ext, rule fold_cong [OF refl refl])
    fix j assume "j \<in> set [0..<8]"
    then have "j < 8" by simp
    from polyToMsg_inner_same [OF i this polyConditionalSubQ_same [OF assms]]
    show "polyToMsg_inner (polyConditionalSubQ r) i j = polyToMsg_inner (polyConditionalSubQ r') i j" .
  qed
qed

lemma compressPoly_t_same:
  assumes "i < 32" "j < 8" "same_coeffs a a'"
  shows "compressPoly_t a d m i j = compressPoly_t a' d m i j"
proof -
  from assms(1,2) have i: "8 * i + j < 256" by simp
  note e = same_coeffsD [OF assms(3) i]
  show ?thesis
    unfolding compressPoly_t_def Let_def e ..
qed

lemma compressPoly_ts_same:
  assumes "i < 32" "same_coeffs a a'"
  shows "map (compressPoly_t a d m i) [0..<8] = map (compressPoly_t a' d m i) [0..<8]"
  by (rule map_cong [OF refl]) (simp add: compressPoly_t_same [OF assms(1) _ assms(2)])

lemma compressPoly_same:
  assumes "same_coeffs r r'"
  shows "compressPoly K r = compressPoly K r'"
proof -
  have 4: "compressPoly_step4 r i = compressPoly_step4 r' i" if "i < 32" for i
    unfolding compressPoly_step4_def compressPoly_ts_same [OF that assms] ..
  have 5: "compressPoly_step5 r i = compressPoly_step5 r' i" if "i < 32" for i
    unfolding compressPoly_step5_def compressPoly_ts_same [OF that assms] ..
  have "fold (compressPoly_step4 r) [0..<256 div 8] s = fold (compressPoly_step4 r') [0..<256 div 8] s" for s
    by (rule fold_cong) (simp_all add: 4)
  moreover
  have "fold (compressPoly_step5 r) [0..<256 div 8] s = fold (compressPoly_step5 r') [0..<256 div 8] s" for s
    by (rule fold_cong) (simp_all add: 5)
  ultimately show ?thesis
    unfolding compressPoly_def paramsN_def by simp
qed

lemma polyVectorCSubQ_fold_length:
  "length (fold (\<lambda>i r. r[i := polyConditionalSubQ (r ! i)]) [0..<K] v) = length v"
  by (induction K) simp_all

lemma polyVectorCSubQ_fold_nth:
  "K \<le> length v \<Longrightarrow> i < length v \<Longrightarrow>
   fold (\<lambda>i r. r[i := polyConditionalSubQ (r ! i)]) [0..<K] v ! i
     = (if i < K then polyConditionalSubQ (v ! i) else v ! i)"
  by (induction K) (auto simp: nth_list_update polyVectorCSubQ_fold_length)

lemma compressPolyVector_t10_same:
  assumes "j < 64" "k < 4" "same_coeffs a a'"
  shows "compressPolyVector_t10 a j k = compressPolyVector_t10 a' j k"
proof -
  from assms(1,2) have i: "4 * j + k < 256" by simp
  note e = same_coeffsD [OF assms(3) i]
  show ?thesis
    unfolding compressPolyVector_t10_def e ..
qed

lemma compressPolyVector_t11_same:
  assumes "j < 32" "k < 8" "same_coeffs a a'"
  shows "compressPolyVector_t11 a j k = compressPolyVector_t11 a' j k"
proof -
  from assms(1,2) have i: "8 * j + k < 256" by simp
  note e = same_coeffsD [OF assms(3) i]
  show ?thesis
    unfolding compressPolyVector_t11_def e ..
qed

lemma compressPolyVector_step10_same:
  assumes "j < 64" "same_coeffs a a'"
  shows "compressPolyVector_step10 a j = compressPolyVector_step10 a' j"
proof -
  have e: "map (compressPolyVector_t10 a j) [0..<4] = map (compressPolyVector_t10 a' j) [0..<4]"
    by (rule map_cong [OF refl]) (simp add: compressPolyVector_t10_same [OF assms(1) _ assms(2)])
  show ?thesis
    unfolding compressPolyVector_step10_def e ..
qed

lemma compressPolyVector_step11_same:
  assumes "j < 32" "same_coeffs a a'"
  shows "compressPolyVector_step11 a j = compressPolyVector_step11 a' j"
proof -
  have e: "map (compressPolyVector_t11 a j) [0..<8] = map (compressPolyVector_t11 a' j) [0..<8]"
    by (rule map_cong [OF refl]) (simp add: compressPolyVector_t11_same [OF assms(1) _ assms(2)])
  show ?thesis
    unfolding compressPolyVector_step11_def e ..
qed

lemma compressPolyVector_same:
  assumes "list_all2 same_coeffs v v'"
  shows "compressPolyVector K v = compressPolyVector K v'"
proof (cases "K \<le> length v")
  case False
  with list_all2_lengthD [OF assms] show ?thesis
    by (simp add: compressPolyVector_def polyVectorCSubQ_def)
next
  case True
  with list_all2_lengthD [OF assms] have K': "K \<le> length v'" by simp
  define w where "w = fold (\<lambda>i r. r[i := polyConditionalSubQ (r ! i)]) [0..<K] v"
  define w' where "w' = fold (\<lambda>i r. r[i := polyConditionalSubQ (r ! i)]) [0..<K] v'"
  have s: "same_coeffs (w ! i) (w' ! i)" if "i < K" for i
  proof -
    from that True K' have i: "i < length v" "i < length v'" by simp_all
    from list_all2_nthD [OF assms i(1)] have "same_coeffs (v ! i) (v' ! i)" .
    then show ?thesis
      unfolding w_def w'_def
      by (simp add: polyVectorCSubQ_fold_nth True K' i that polyConditionalSubQ_same)
  qed
  have 10: "fold (compressPolyVector_step10 (w ! i)) [0..<64]
          = fold (compressPolyVector_step10 (w' ! i)) [0..<64]" if "i < K" for i
    by (rule ext, rule fold_cong) (simp_all add: compressPolyVector_step10_same s [OF that])
  have 11: "fold (compressPolyVector_step11 (w ! i)) [0..<32]
          = fold (compressPolyVector_step11 (w' ! i)) [0..<32]" if "i < K" for i
    by (rule ext, rule fold_cong) (simp_all add: compressPolyVector_step11_same s [OF that])
  have a: "fold (\<lambda>i. fold (compressPolyVector_step10 (w ! i)) [0..<64]) [0..<K] s0
      = fold (\<lambda>i. fold (compressPolyVector_step10 (w' ! i)) [0..<64]) [0..<K] s0" for s0
    by (rule fold_cong) (simp_all add: 10)
  have b: "fold (\<lambda>i. fold (compressPolyVector_step11 (w ! i)) [0..<32]) [0..<K] s0
      = fold (\<lambda>i. fold (compressPolyVector_step11 (w' ! i)) [0..<32]) [0..<K] s0" for s0
    by (rule fold_cong) (simp_all add: 11)
  show ?thesis
    unfolding compressPolyVector_def polyVectorCSubQ_def paramsN_def
    using True K' a b by (simp add: w_def w'_def)
qed

lemma ntt_middle_same:
  assumes "layer_ok n l kinv" "same_coeffs r r'"
  shows "same_coeffs (fst (ntt_middle l (r, j, k) 0)) (fst (ntt_middle l (r', j', k) 0))"
proof (rule same_coeffsI)
  fix i :: nat assume i: "i < 256"
  from assms(1) have l: "0 < l" and n: "n * (2 * l) = 256"
    by (simp_all add: layer_ok_def)
  from n have n0: "0 + n * (2 * l) = 256" by simp
  obtain g d where gd: "g < n" "d < l" "i = g * (2 * l) + d \<or> i = g * (2 * l) + d + l"
    by (rule cover [OF l n i])
  note b = pair_below [OF n gd(1,2)]
  note x = b [THEN same_coeffsD [OF assms(2)]]
  from ntt_middle_pair [OF l n0 gd(1,2), of r j k] ntt_middle_pair [OF l n0 gd(1,2), of r' j' k]
  have "jget (fst (ntt_middle l (r, j, k) 0)) (g * (2 * l) + d)
      = jget (fst (ntt_middle l (r', j', k) 0)) (g * (2 * l) + d)"
    "jget (fst (ntt_middle l (r, j, k) 0)) (g * (2 * l) + d + l)
      = jget (fst (ntt_middle l (r', j', k) 0)) (g * (2 * l) + d + l)"
    by (simp_all add: x)
  with gd(3) show "jget (fst (ntt_middle l (r, j, k) 0)) i = jget (fst (ntt_middle l (r', j', k) 0)) i"
    by auto
qed

lemma ntt_middle_rest:
  assumes "layer_ok n l kinv" "256 \<le> i"
  shows "jget (fst (ntt_middle l (r, j, k) 0)) i = jget r i"
proof -
  from assms(1) have l: "0 < l" and n: "0 + n * (2 * l) = 256"
    by (simp_all add: layer_ok_def)
  from ntt_middle_outside [OF l n, of i r j k] assms(2) show ?thesis by simp
qed

lemma invNTT_middle_same:
  assumes "layer_ok n l kinv" "same_coeffs r r'"
  shows "same_coeffs (fst (invNTT_middle l (r, j, k) 0)) (fst (invNTT_middle l (r', j', k) 0))"
proof (rule same_coeffsI)
  fix i :: nat assume i: "i < 256"
  from assms(1) have l: "0 < l" and n: "n * (2 * l) = 256"
    by (simp_all add: layer_ok_def)
  from n have n0: "0 + n * (2 * l) = 256" by simp
  obtain g d where gd: "g < n" "d < l" "i = g * (2 * l) + d \<or> i = g * (2 * l) + d + l"
    by (rule cover [OF l n i])
  note b = pair_below [OF n gd(1,2)]
  note x = b [THEN same_coeffsD [OF assms(2)]]
  from invNTT_middle_pair [OF l n0 gd(1,2), of r j k] invNTT_middle_pair [OF l n0 gd(1,2), of r' j' k]
  have "jget (fst (invNTT_middle l (r, j, k) 0)) (g * (2 * l) + d)
      = jget (fst (invNTT_middle l (r', j', k) 0)) (g * (2 * l) + d)"
    "jget (fst (invNTT_middle l (r, j, k) 0)) (g * (2 * l) + d + l)
      = jget (fst (invNTT_middle l (r', j', k) 0)) (g * (2 * l) + d + l)"
    by (simp_all add: x)
  with gd(3) show "jget (fst (invNTT_middle l (r, j, k) 0)) i = jget (fst (invNTT_middle l (r', j', k) 0)) i"
    by auto
qed

lemma invNTT_middle_rest:
  assumes "layer_ok n l kinv" "256 \<le> i"
  shows "jget (fst (invNTT_middle l (r, j, k) 0)) i = jget r i"
proof -
  from assms(1) have l: "0 < l" and n: "0 + n * (2 * l) = 256"
    by (simp_all add: layer_ok_def)
  from invNTT_middle_outside [OF l n, of i r j k] assms(2) show ?thesis by simp
qed

lemma ntt_layers:
  "ntt p = fst (ntt_middle 2 (fst (ntt_middle 4 (fst (ntt_middle 8 (fst (ntt_middle 16
     (fst (ntt_middle 32 (fst (ntt_middle 64 (fst (ntt_middle 128 (p, 0, 1) 0),
       128, 2) 0), 192, 4) 0), 224, 8) 0), 240, 16) 0), 248, 32) 0), 252, 64) 0)"
proof -
  define r1 where "r1 = fst (ntt_middle 128 (p, 0, 1) 0)"
  define r2 where "r2 = fst (ntt_middle 64 (r1, 128, 2) 0)"
  define r3 where "r3 = fst (ntt_middle 32 (r2, 192, 4) 0)"
  define r4 where "r4 = fst (ntt_middle 16 (r3, 224, 8) 0)"
  define r5 where "r5 = fst (ntt_middle 8 (r4, 240, 16) 0)"
  define r6 where "r6 = fst (ntt_middle 4 (r5, 248, 32) 0)"
  define r7 where "r7 = fst (ntt_middle 2 (r6, 252, 64) 0)"
  have e1: "ntt_middle 128 (p, 0, 1) 0 = (r1, 128, 2)"
    unfolding r1_def using ntt_middle_triple [OF layer_ok_128, of p 0 1]
    by (simp del: One_nat_def)
  have e2: "ntt_middle 64 (r1, 128, 2) 0 = (r2, 192, 4)"
    unfolding r2_def using ntt_middle_triple [OF layer_ok_64, of r1 128 2] by simp
  have e3: "ntt_middle 32 (r2, 192, 4) 0 = (r3, 224, 8)"
    unfolding r3_def using ntt_middle_triple [OF layer_ok_32, of r2 192 4] by simp
  have e4: "ntt_middle 16 (r3, 224, 8) 0 = (r4, 240, 16)"
    unfolding r4_def using ntt_middle_triple [OF layer_ok_16, of r3 224 8] by simp
  have e5: "ntt_middle 8 (r4, 240, 16) 0 = (r5, 248, 32)"
    unfolding r5_def using ntt_middle_triple [OF layer_ok_8, of r4 240 16] by simp
  have e6: "ntt_middle 4 (r5, 248, 32) 0 = (r6, 252, 64)"
    unfolding r6_def using ntt_middle_triple [OF layer_ok_4, of r5 248 32] by simp
  have "ntt p = r7"
    unfolding ntt_unroll e1 e2 e3 e4 e5 e6 r7_def ..
  then show ?thesis
    unfolding r7_def r6_def r5_def r4_def r3_def r2_def r1_def .
qed

lemma invNTT_outer_layers:
  "invNTT_outer 2 (r, 0, 0) = fst (invNTT_middle 128 (fst (invNTT_middle 64 (fst (invNTT_middle 32
     (fst (invNTT_middle 16 (fst (invNTT_middle 8 (fst (invNTT_middle 4 (fst (invNTT_middle 2
       (r, 0, 0) 0), 254, 64) 0), 252, 96) 0), 248, 112) 0), 240, 120) 0), 224, 124) 0),
       192, 126) 0)"
proof -
  define u1 where "u1 = fst (invNTT_middle 2 (r, 0, 0) 0)"
  define u2 where "u2 = fst (invNTT_middle 4 (u1, 254, 64) 0)"
  define u3 where "u3 = fst (invNTT_middle 8 (u2, 252, 96) 0)"
  define u4 where "u4 = fst (invNTT_middle 16 (u3, 248, 112) 0)"
  define u5 where "u5 = fst (invNTT_middle 32 (u4, 240, 120) 0)"
  define u6 where "u6 = fst (invNTT_middle 64 (u5, 224, 124) 0)"
  define u7 where "u7 = fst (invNTT_middle 128 (u6, 192, 126) 0)"
  have f1: "invNTT_middle 2 (r, 0, 0) 0 = (u1, 254, 64)"
    unfolding u1_def using invNTT_middle_triple [OF layer_ok_2, of r 0 0] by simp
  have f2: "invNTT_middle 4 (u1, 254, 64) 0 = (u2, 252, 96)"
    unfolding u2_def using invNTT_middle_triple [OF layer_ok_4, of u1 254 64] by simp
  have f3: "invNTT_middle 8 (u2, 252, 96) 0 = (u3, 248, 112)"
    unfolding u3_def using invNTT_middle_triple [OF layer_ok_8, of u2 252 96] by simp
  have f4: "invNTT_middle 16 (u3, 248, 112) 0 = (u4, 240, 120)"
    unfolding u4_def using invNTT_middle_triple [OF layer_ok_16, of u3 248 112] by simp
  have f5: "invNTT_middle 32 (u4, 240, 120) 0 = (u5, 224, 124)"
    unfolding u5_def using invNTT_middle_triple [OF layer_ok_32, of u4 240 120] by simp
  have f6: "invNTT_middle 64 (u5, 224, 124) 0 = (u6, 192, 126)"
    unfolding u6_def using invNTT_middle_triple [OF layer_ok_64, of u5 224 124] by simp
  have "invNTT_outer 2 (r, 0, 0) = u7"
    unfolding invNTT_outer_unroll f1 f2 f3 f4 f5 f6 u7_def ..
  then show ?thesis
    unfolding u7_def u6_def u5_def u4_def u3_def u2_def u1_def .
qed

lemma ntt_same:
  assumes "same_coeffs r r'"
  shows "same_coeffs (ntt r) (ntt r')"
  unfolding ntt_layers
  by (intro ntt_middle_same [OF layer_ok_2] ntt_middle_same [OF layer_ok_4]
        ntt_middle_same [OF layer_ok_8] ntt_middle_same [OF layer_ok_16]
        ntt_middle_same [OF layer_ok_32] ntt_middle_same [OF layer_ok_64]
        ntt_middle_same [OF layer_ok_128] assms)

lemma ntt_rest:
  assumes "256 \<le> i"
  shows "jget (ntt r) i = jget r i"
  unfolding ntt_layers
  by (simp only: ntt_middle_rest [OF layer_ok_2 assms] ntt_middle_rest [OF layer_ok_4 assms]
        ntt_middle_rest [OF layer_ok_8 assms] ntt_middle_rest [OF layer_ok_16 assms]
        ntt_middle_rest [OF layer_ok_32 assms] ntt_middle_rest [OF layer_ok_64 assms]
        ntt_middle_rest [OF layer_ok_128 assms])

lemma invNTT_outer_same:
  assumes "same_coeffs r r'"
  shows "same_coeffs (invNTT_outer 2 (r, 0, 0)) (invNTT_outer 2 (r', 0, 0))"
  unfolding invNTT_outer_layers
  by (intro invNTT_middle_same [OF layer_ok_2] invNTT_middle_same [OF layer_ok_4]
        invNTT_middle_same [OF layer_ok_8] invNTT_middle_same [OF layer_ok_16]
        invNTT_middle_same [OF layer_ok_32] invNTT_middle_same [OF layer_ok_64]
        invNTT_middle_same [OF layer_ok_128] assms)

lemma invNTT_outer_rest:
  assumes "256 \<le> i"
  shows "jget (invNTT_outer 2 (r, 0, 0)) i = jget r i"
  unfolding invNTT_outer_layers
  by (simp only: invNTT_middle_rest [OF layer_ok_2 assms] invNTT_middle_rest [OF layer_ok_4 assms]
        invNTT_middle_rest [OF layer_ok_8 assms] invNTT_middle_rest [OF layer_ok_16 assms]
        invNTT_middle_rest [OF layer_ok_32 assms] invNTT_middle_rest [OF layer_ok_64 assms]
        invNTT_middle_rest [OF layer_ok_128 assms])

lemma jget_invNTT:
  "jget (invNTT r) k =
     (if k < 256 then modQMulMont (jget (invNTT_outer 2 (r, 0, 0)) k) (table_at nttZetasInv 127)
      else jget (invNTT_outer 2 (r, 0, 0)) k)"
  unfolding invNTT_def
  using fold_jset_pointwise [of 0 "\<lambda>i x. modQMulMont x (table_at nttZetasInv 127)" 256
      "invNTT_outer 2 (r, 0, 0)" k]
  by simp

lemma invNTT_same:
  assumes "same_coeffs r r'"
  shows "same_coeffs (invNTT r) (invNTT r')"
  by (rule same_coeffsI) (simp add: jget_invNTT same_coeffsD [OF invNTT_outer_same [OF assms]])

lemma invNTT_rest: "256 \<le> i \<Longrightarrow> jget (invNTT r) i = jget r i"
  by (simp add: jget_invNTT invNTT_outer_rest)

lemma polyFromBytes_hole: "jget (polyFromBytes a) i = None \<longleftrightarrow> 256 \<le> i"
  by (simp add: jget_polyFromBytes js_and_def)

lemma polyFromData_mask:
  "js_and (js_neg (map_option int16 (js_and X (Some 1)))) (Some (int16 ((paramsQ + 1) div 2)))
     = Some 0 \<or>
   js_and (js_neg (map_option int16 (js_and X (Some 1)))) (Some (int16 ((paramsQ + 1) div 2)))
     = Some 1665"
proof -
  have "toInt32 X AND 1 = 0 \<or> toInt32 X AND 1 = 1"
    unfolding and_one_eq by presburger
  then show ?thesis
    by (auto simp: js_and_def toInt32_Some int16_id paramsQ_def)
qed

lemma polyFromData_coeff_values:
  "i < 256 \<Longrightarrow> jget (polyFromData m) i = Some 0 \<or> jget (polyFromData m) i = Some 1665"
  using polyFromData_mask [of "js_shr (jget m (i div 8)) (i mod 8)"]
  by (simp add: jget_polyFromData)

lemma polyFromData_fill:
  "256 \<le> i \<Longrightarrow> i < 384 \<Longrightarrow> jget (polyFromData m) i = Some 0"
  by (simp add: jget_polyFromData)

text \<open>
  C9: for every input, \<open>polyFromBytes\<close> and \<open>polyFromData\<close> return an array of
  \<open>paramsPolyBytes = 384\<close> slots, more than the \<open>paramsN = 256\<close> coefficients. The
  slots \<open>0..255\<close> hold the coefficients; the slots from 256 on are holes in the result
  of \<open>polyFromBytes\<close> and the fill value 0 in the result of \<open>polyFromData\<close>. The
  methods of \<open>poly.ts\<close> that take a polynomial read the slots \<open>0..255\<close> only: on two
  arrays \<open>r\<close> and \<open>r'\<close> with the same values there (and two such arrays \<open>b\<close> and
  \<open>b'\<close> as second argument, two such vectors \<open>v\<close> and \<open>v'\<close>), \<open>polyToBytes\<close>,
  \<open>polyToMsg\<close>, \<open>compressPoly\<close> and \<open>compressPolyVector\<close> return the same bytes, and
  \<open>polyConditionalSubQ\<close>, \<open>ntt\<close>, \<open>invNTT\<close>, \<open>polyReduce\<close>, \<open>polyToMont\<close>,
  \<open>subtract\<close> and \<open>polyBaseMulMont\<close>, which work in place, leave the same values in
  the slots \<open>0..255\<close> and every slot from 256 on as it was. \<open>polyAdd\<close> reads the
  length of its first argument for the new array, and leaves holes from slot 256 on.
\<close>

theorem polyFromBytes_polyFromData_slots:
  assumes "same_coeffs r r'" and "same_coeffs b b'" and "list_all2 same_coeffs v v'"
  shows "length (polyFromBytes a) = paramsPolyBytes \<and> length (polyFromData m) = paramsPolyBytes
     \<and> paramsN < paramsPolyBytes
     \<and> (\<forall>i. jget (polyFromBytes a) i = None \<longleftrightarrow> paramsN \<le> i)
     \<and> (\<forall>i<paramsN. jget (polyFromData m) i = Some 0 \<or> jget (polyFromData m) i = Some 1665)
     \<and> (\<forall>i. paramsN \<le> i \<and> i < paramsPolyBytes \<longrightarrow> jget (polyFromData m) i = Some 0)
     \<and> polyToBytes r = polyToBytes r' \<and> polyToMsg r = polyToMsg r'
     \<and> compressPoly K r = compressPoly K r'
     \<and> compressPolyVector K v = compressPolyVector K v'
     \<and> same_coeffs (polyConditionalSubQ r) (polyConditionalSubQ r')
     \<and> (\<forall>i\<ge>paramsN. jget (polyConditionalSubQ r) i = jget r i)
     \<and> same_coeffs (ntt r) (ntt r') \<and> (\<forall>i\<ge>paramsN. jget (ntt r) i = jget r i)
     \<and> same_coeffs (invNTT r) (invNTT r') \<and> (\<forall>i\<ge>paramsN. jget (invNTT r) i = jget r i)
     \<and> same_coeffs (polyReduce_array r) (polyReduce_array r')
     \<and> (\<forall>i\<ge>paramsN. jget (polyReduce_array r) i = jget r i)
     \<and> same_coeffs (polyToMont r) (polyToMont r')
     \<and> (\<forall>i\<ge>paramsN. jget (polyToMont r) i = jget r i)
     \<and> same_coeffs (subtract r b) (subtract r' b')
     \<and> (\<forall>i\<ge>paramsN. jget (subtract r b) i = jget r i)
     \<and> same_coeffs (baseMul r b) (baseMul r' b')
     \<and> (\<forall>i\<ge>paramsN. jget (baseMul r b) i = jget r i)
     \<and> same_coeffs (polyAdd_array r b) (polyAdd_array r' b')
     \<and> (\<forall>i\<ge>paramsN. jget (polyAdd_array r b) i = None)"
proof -
  note d = same_coeffsD [OF assms(1)] same_coeffsD [OF assms(2)]
  have 1: "length (polyFromBytes a) = paramsPolyBytes" "length (polyFromData m) = paramsPolyBytes"
    "paramsN < paramsPolyBytes"
    by (simp_all add: length_polyFromBytes length_polyFromData paramsPolyBytes_def paramsN_def)
  have 2: "\<forall>i. jget (polyFromBytes a) i = None \<longleftrightarrow> paramsN \<le> i"
    by (simp add: polyFromBytes_hole paramsN_def)
  have 3: "\<forall>i<paramsN. jget (polyFromData m) i = Some 0 \<or> jget (polyFromData m) i = Some 1665"
    using polyFromData_coeff_values by (simp add: paramsN_def)
  have 4: "\<forall>i. paramsN \<le> i \<and> i < paramsPolyBytes \<longrightarrow> jget (polyFromData m) i = Some 0"
    by (simp add: polyFromData_fill paramsN_def paramsPolyBytes_def)
  have 5: "polyToBytes r = polyToBytes r'" "polyToMsg r = polyToMsg r'"
    "compressPoly K r = compressPoly K r'" "compressPolyVector K v = compressPolyVector K v'"
    by (rule polyToBytes_same polyToMsg_same compressPoly_same compressPolyVector_same; fact)+
  have 6: "same_coeffs (polyConditionalSubQ r) (polyConditionalSubQ r')"
    "same_coeffs (ntt r) (ntt r')" "same_coeffs (invNTT r) (invNTT r')"
    by (rule polyConditionalSubQ_same ntt_same invNTT_same; fact)+
  have 7: "same_coeffs (polyReduce_array r) (polyReduce_array r')"
    "same_coeffs (polyToMont r) (polyToMont r')"
    "same_coeffs (subtract r b) (subtract r' b')"
    "same_coeffs (polyAdd_array r b) (polyAdd_array r' b')"
    by (rule same_coeffsI, simp add: jget_polyReduce_array jget_polyToMont jget_subtract
          jget_polyAdd_array d)+
  have 8: "same_coeffs (baseMul r b) (baseMul r' b')"
    by (rule baseMul_same; fact)
  have 9: "\<forall>i\<ge>paramsN. jget (polyConditionalSubQ r) i = jget r i"
    "\<forall>i\<ge>paramsN. jget (ntt r) i = jget r i"
    "\<forall>i\<ge>paramsN. jget (invNTT r) i = jget r i"
    "\<forall>i\<ge>paramsN. jget (polyReduce_array r) i = jget r i"
    "\<forall>i\<ge>paramsN. jget (polyToMont r) i = jget r i"
    "\<forall>i\<ge>paramsN. jget (subtract r b) i = jget r i"
    "\<forall>i\<ge>paramsN. jget (baseMul r b) i = jget r i"
    "\<forall>i\<ge>paramsN. jget (polyAdd_array r b) i = None"
    by (simp_all add: paramsN_def polyConditionalSubQ_rest ntt_rest invNTT_rest
        jget_polyReduce_array jget_polyToMont jget_subtract baseMul_rest jget_polyAdd_array)
  from 1 2 3 4 5 6 7 8 9 show ?thesis
    by (intro conjI)
qed

theorem polyFromBytes_polyFromData_slots_witness:
  "length (polyFromBytes []) = 384
   \<and> jget (polyFromBytes []) 255 = Some 0 \<and> jget (polyFromBytes []) 256 = None
   \<and> jget (ntt (polyFromBytes [])) 300 = None
   \<and> jget (baseMul (polyFromData []) (polyFromBytes [])) 300 = Some 0
   \<and> polyToBytes (polyFromBytes []) = polyToBytes (take 256 (polyFromBytes []))
   \<and> compressPolyVector 2 [polyFromBytes [], polyFromData []]
       = compressPolyVector 2 [take 256 (polyFromBytes []), take 256 (polyFromData [])]"
proof -
  have h: "same_coeffs (polyFromBytes []) (take paramsN (polyFromBytes []))"
    "same_coeffs (polyFromData []) (take paramsN (polyFromData []))"
    by (rule same_coeffs_take)+
  then have v: "list_all2 same_coeffs [polyFromBytes [], polyFromData []]
      [take paramsN (polyFromBytes []), take paramsN (polyFromData [])]"
    by simp
  have 0: "jget (polyFromBytes []) 255 = Some 0"
    unfolding jget_polyFromBytes
    by (simp add: js_and_def js_or_def js_shl_def js_shr_def jget_def toInt32_def int16_id)
  have 1: "jget (polyFromData []) 300 = Some 0"
    by (simp add: jget_polyFromData)
  from polyFromBytes_polyFromData_slots [OF h(1) h(2) v, of "[]" "[]" 2]
  have a: "length (polyFromBytes []) = paramsPolyBytes"
    and b: "\<forall>i. jget (polyFromBytes []) i = None \<longleftrightarrow> paramsN \<le> i"
    and c: "\<forall>i\<ge>paramsN. jget (ntt (polyFromBytes [])) i = jget (polyFromBytes []) i"
    and d: "polyToBytes (polyFromBytes []) = polyToBytes (take paramsN (polyFromBytes []))"
    and e: "compressPolyVector 2 [polyFromBytes [], polyFromData []]
       = compressPolyVector 2 [take paramsN (polyFromBytes []), take paramsN (polyFromData [])]"
    by blast+
  from polyFromBytes_polyFromData_slots [OF h(2) h(1) v, of "[]" "[]" 2]
  have f: "\<forall>i\<ge>paramsN. jget (baseMul (polyFromData []) (polyFromBytes [])) i
      = jget (polyFromData []) i"
    by blast
  from a b c d e f 0 1 show ?thesis
    by (simp add: paramsN_def paramsPolyBytes_def)
qed

end
